theory Spec2Isabelle
  imports Main "HOL-Library.Word" "HOL-Library.FSet" "HOL-Library.Multiset" "HOL-Library.List_Lexorder" "HOL-Library.Char_ord"
begin

section \<open>Time, cancellation and closures\<close>

text \<open>
  Instants and durations are counted in nanoseconds, as Go's \<^verbatim>\<open>time.Duration\<close>
  does. A duration is a signed 64-bit number of nanoseconds; the model keeps durations
  as \<open>int\<close> and writes the 64-bit wrap-around out where the source multiplies.

  A \<^verbatim>\<open>context.Context\<close> is modelled by the instant from which its \<^verbatim>\<open>Done\<close>
  channel is closed: \<open>None\<close> is a context that is never cancelled
  (\<^verbatim>\<open>context.Background()\<close>), \<open>Some c\<close> one that is cancelled at instant \<open>c\<close>.

  A Go closure \<^verbatim>\<open>func() error\<close> reads and writes captured variables. It is
  modelled by explicit state passing over the captured state \<open>'s\<close>; a \<^verbatim>\<open>nil\<close>
  error is \<open>None\<close>. The state of a run is the captured state together with a clock.
  The clock counts the waits of the executor: an invocation of the operation is one
  step at one instant, and a cancellation that arrives while the operation runs is a
  context that is cancelled when the executor looks at it next.
\<close>

type_synonym "context" = "int option"

definition ctx_Done :: "context \<Rightarrow> int \<Rightarrow> bool" where
  "ctx_Done ctx t = (case ctx of None \<Rightarrow> False | Some c \<Rightarrow> c \<le> t)"

datatype 'e error = Canceled | OpError 'e

definition ctx_Err :: "context \<Rightarrow> int \<Rightarrow> 'e error option" where
  "ctx_Err ctx t = (if ctx_Done ctx t then Some Canceled else None)"

record 's world =
  clock :: int
  heap :: 's

definition Millisecond :: "64 word" where
  "Millisecond = 1000000"

text \<open>
  \<^verbatim>\<open>time.Duration(i) * 400 * time.Millisecond\<close>: a product of 64-bit signed
  integers, which wraps around.
\<close>

definition backoff :: "int \<Rightarrow> int" where
  "backoff i = sint (word_of_int i * 400 * Millisecond)"

text \<open>
  \<^verbatim>\<open>select { case <-ctx.Done(): ...; case <-time.After(d): }\<close> entered at instant
  \<open>clock w\<close>. The timer fires \<open>d\<close> later (at once when \<open>d \<le> 0\<close>). The context's
  branch is taken when \<^verbatim>\<open>Done\<close> is already closed or closes before the timer fires,
  and the clock then stands at the later of the entry and the cancellation; otherwise
  the timer's branch is taken and the clock has advanced by the wait. When both
  channels become ready at the same instant Go takes either branch; the model takes the
  timer's, and no result below is about that instant.
  \<open>Inl\<close> is the context's branch, \<open>Inr\<close> the timer's.
\<close>

definition select_Done_After :: "context \<Rightarrow> int \<Rightarrow> 's world \<Rightarrow> 's world + 's world" where
  "select_Done_After ctx d w =
     (case ctx of
        None \<Rightarrow> Inr (w\<lparr>clock := clock w + max 0 d\<rparr>)
      | Some c \<Rightarrow>
          if c \<le> clock w \<or> c < clock w + d then Inl (w\<lparr>clock := max (clock w) c\<rparr>)
          else Inr (w\<lparr>clock := clock w + max 0 d\<rparr>))"

section \<open>Retry executor (cmd/main.go)\<close>

function withRetry_loop ::
  "context \<Rightarrow> int \<Rightarrow> ('s \<Rightarrow> 'e option \<times> 's) \<Rightarrow> int \<Rightarrow> 'e option \<Rightarrow> 's world
    \<Rightarrow> 'e error option \<times> 's world" where
  "withRetry_loop ctx attempts fn i err w =
     (if i \<le> attempts then
        (case fn (heap w) of
           (None, h) \<Rightarrow> (None, w\<lparr>heap := h\<rparr>)
         | (Some e, h) \<Rightarrow>
             if i = attempts then (Some (OpError e), w\<lparr>heap := h\<rparr>)
             else
               (case select_Done_After ctx (backoff i) (w\<lparr>heap := h\<rparr>) of
                  Inl w' \<Rightarrow> (ctx_Err ctx (clock w'), w')
                | Inr w' \<Rightarrow> withRetry_loop ctx attempts fn (i + 1) (Some e) w'))
      else (map_option OpError err, w))"
  by pat_completeness auto
termination
  by (relation "measure (\<lambda>(ctx, attempts, fn, i, err, w). nat (attempts + 1 - i))") auto

definition withRetry ::
  "context \<Rightarrow> int \<Rightarrow> ('s \<Rightarrow> 'e option \<times> 's) \<Rightarrow> 's world \<Rightarrow> 'e error option \<times> 's world" where
  "withRetry ctx attempts fn w =
     withRetry_loop ctx (if attempts < 1 then 1 else attempts) fn 1 None w"

text \<open>
  \<^verbatim>\<open>withRetryResult[T]\<close>: the operation returns a value and an error; \<open>zero\<close> is
  the zero value of \<^verbatim>\<open>T\<close>.
\<close>

function withRetryResult_loop ::
  "'a \<Rightarrow> context \<Rightarrow> int \<Rightarrow> ('s \<Rightarrow> ('a \<times> 'e option) \<times> 's) \<Rightarrow> int \<Rightarrow> 'e option \<Rightarrow> 's world
    \<Rightarrow> ('a \<times> 'e error option) \<times> 's world" where
  "withRetryResult_loop zero ctx attempts fn i err w =
     (if i \<le> attempts then
        (case fn (heap w) of
           ((v, None), h) \<Rightarrow> ((v, None), w\<lparr>heap := h\<rparr>)
         | ((v, Some callErr), h) \<Rightarrow>
             if i = attempts then ((zero, Some (OpError callErr)), w\<lparr>heap := h\<rparr>)
             else
               (case select_Done_After ctx (backoff i) (w\<lparr>heap := h\<rparr>) of
                  Inl w' \<Rightarrow> ((zero, ctx_Err ctx (clock w')), w')
                | Inr w' \<Rightarrow> withRetryResult_loop zero ctx attempts fn (i + 1) (Some callErr) w'))
      else ((zero, map_option OpError err), w))"
  by pat_completeness auto
termination
  by (relation "measure (\<lambda>(zero, ctx, attempts, fn, i, err, w). nat (attempts + 1 - i))") auto

definition withRetryResult ::
  "'a \<Rightarrow> context \<Rightarrow> int \<Rightarrow> ('s \<Rightarrow> ('a \<times> 'e option) \<times> 's) \<Rightarrow> 's world
    \<Rightarrow> ('a \<times> 'e error option) \<times> 's world" where
  "withRetryResult zero ctx attempts fn w =
     withRetryResult_loop zero ctx (if attempts < 1 then 1 else attempts) fn 1 None w"

declare withRetry_loop.simps [simp del] withRetryResult_loop.simps [simp del]

subsection \<open>Observing a closure\<close>

text \<open>
  The repository's tests observe an operation by letting it count its own calls
  (\<^verbatim>\<open>calls++\<close> in the closure). \<open>counted fn\<close> is \<open>fn\<close> with such a counter next
  to its captured state. \<open>state_after fn j s\<close> is the captured state after \<open>j\<close>
  invocations from \<open>s\<close>, and \<open>outcome fn j s\<close> is what invocation number \<open>j + 1\<close>
  returns.
\<close>

definition counted :: "('s \<Rightarrow> 'r \<times> 's) \<Rightarrow> nat \<times> 's \<Rightarrow> 'r \<times> (nat \<times> 's)" where
  "counted fn = (\<lambda>(n, s). case fn s of (r, s') \<Rightarrow> (r, (Suc n, s')))"

fun state_after :: "('s \<Rightarrow> 'r \<times> 's) \<Rightarrow> nat \<Rightarrow> 's \<Rightarrow> 's" where
  "state_after fn 0 s = s"
| "state_after fn (Suc j) s = state_after fn j (snd (fn s))"

definition outcome :: "('s \<Rightarrow> 'r \<times> 's) \<Rightarrow> nat \<Rightarrow> 's \<Rightarrow> 'r" where
  "outcome fn j s = fst (fn (state_after fn j s))"

definition invocations :: "'r \<times> (nat \<times> 's) world \<Rightarrow> nat" where
  "invocations res = fst (heap (snd res))"

text \<open>
  The closures of \<^verbatim>\<open>cmd/retry_test.go\<close>: \<open>flaky good\<close> fails until its
  \<open>good\<close>-th call (\<^verbatim>\<open>calls++; if calls < good { return errors.New("transient") }\<close>),
  \<open>flaky_value\<close> is its value-returning form, \<open>permanent\<close> always fails and
  \<open>succeed\<close> never does.
\<close>

definition flaky :: "nat \<Rightarrow> nat \<Rightarrow> string option \<times> nat" where
  "flaky good calls = (if Suc calls < good then Some ''transient'' else None, Suc calls)"

definition flaky_value :: "nat \<Rightarrow> nat \<Rightarrow> (int \<times> string option) \<times> nat" where
  "flaky_value good calls =
     (if Suc calls < good then (0, Some ''transient'') else (42, None), Suc calls)"

definition permanent :: "unit \<Rightarrow> string option \<times> unit" where
  "permanent u = (Some ''permanent'', u)"

definition succeed :: "unit \<Rightarrow> string option \<times> unit" where
  "succeed u = (None, u)"

section \<open>Freshness of the cached catalog (cmd/main.go)\<close>

text \<open>
  A \<^verbatim>\<open>time.Time\<close> is modelled by its wall-clock reading: the nanoseconds since Go's
  zero instant (January 1 of year 1, 00:00:00 UTC), which is what \<^verbatim>\<open>IsZero\<close> tests.
  The program's \<^verbatim>\<open>cachedAt\<close> is parsed from the cache file and carries no monotonic
  reading, so \<^verbatim>\<open>now.Sub(cachedAt)\<close> subtracts wall-clock readings. \<^verbatim>\<open>Time.Sub\<close>
  returns a \<^verbatim>\<open>time.Duration\<close>: as documented, a difference outside the range of a
  \<^verbatim>\<open>Duration\<close> is replaced by the nearest of \<^verbatim>\<open>minDuration\<close> and \<^verbatim>\<open>maxDuration\<close>.
\<close>

definition minDuration :: int where
  "minDuration = - (2 ^ 63)"

definition maxDuration :: int where
  "maxDuration = 2 ^ 63 - 1"

definition IsZero :: "int \<Rightarrow> bool" where
  "IsZero t = (t = 0)"

definition time_Sub :: "int \<Rightarrow> int \<Rightarrow> int" where
  "time_Sub t u =
     (if t - u < minDuration then minDuration
      else if maxDuration < t - u then maxDuration
      else t - u)"

definition shouldUseCachedAlbums :: "int \<Rightarrow> int \<Rightarrow> int \<Rightarrow> bool" where
  "shouldUseCachedAlbums cachedAt ttl now =
     (if ttl \<le> 0 then True
      else if IsZero cachedAt then False
      else
        (let age = time_Sub now cachedAt
         in if age < 0 then True else age \<le> ttl))"

section \<open>Strings in JSON (encoding/json, unicode/utf8)\<close>

text \<open>
  A Go string is a sequence of bytes; \<open>byte\<close> is the value of one. \<^verbatim>\<open>encoding/json\<close>
  writes and reads text: \<^verbatim>\<open>json.Marshal\<close> and \<^verbatim>\<open>json.MarshalIndent\<close> write a string
  with every byte that does not begin a well-formed UTF-8 encoding replaced by the
  replacement character U+FFFD (the bytes EF BF BD), and \<^verbatim>\<open>json.Unmarshal\<close> does the same
  to the strings it reads. The escapes they use besides make no difference to what is
  read back.

  \<^verbatim>\<open>utf8.DecodeRuneInString\<close> decides what is well formed. It looks the first byte up
  in the table \<^verbatim>\<open>first\<close>, which gives the width of the encoding that this byte begins
  (here 0 for a byte that begins none), and in \<^verbatim>\<open>acceptRanges\<close>, which bounds the second
  byte; further bytes lie between 80 and BF. It returns the width of the encoding, or
  \<^verbatim>\<open>RuneError\<close> with width 1, which is \<open>None\<close> here (as is the width 0 that it
  returns for the empty string, on which it is not called). \<open>coerced\<close> is the loop of
  the encoder over a string: a byte that begins no encoding is replaced, an encoding
  is copied. \<open>ValidString\<close> is \<^verbatim>\<open>utf8.ValidString\<close>.
\<close>

definition byte :: "char \<Rightarrow> nat" where
  "byte c = of_char c"

definition first :: "nat \<Rightarrow> nat" where
  "first p0 =
     (if p0 < 0x80 then 1
      else if p0 < 0xC2 \<or> 0xF4 < p0 then 0
      else if p0 < 0xE0 then 2 else if p0 < 0xF0 then 3 else 4)"

definition acceptRanges :: "nat \<Rightarrow> nat \<times> nat" where
  "acceptRanges p0 =
     (if p0 = 0xE0 then 0xA0 else if p0 = 0xF0 then 0x90 else 0x80,
      if p0 = 0xED then 0x9F else if p0 = 0xF4 then 0x8F else 0xBF)"

definition DecodeRuneInString :: "string \<Rightarrow> nat option" where
  "DecodeRuneInString s =
     (let n = length s in
      if n < 1 then None
      else
        let sz = first (byte (s ! 0)); (lo, hi) = acceptRanges (byte (s ! 0)) in
        if sz = 1 then Some 1
        else if sz = 0 then None
        else if n < sz then None
        else if byte (s ! 1) < lo \<or> hi < byte (s ! 1) then None
        else if sz \<le> 2 then Some 2
        else if byte (s ! 2) < 0x80 \<or> 0xBF < byte (s ! 2) then None
        else if sz \<le> 3 then Some 3
        else if byte (s ! 3) < 0x80 \<or> 0xBF < byte (s ! 3) then None
        else Some 4)"

definition RuneError :: string where
  "RuneError = [CHR 0xEF, CHR 0xBF, CHR 0xBD]"

fun coerced :: "string \<Rightarrow> string" where
  "coerced [] = []"
| "coerced (c # cs) =
     (case DecodeRuneInString (c # cs) of
        None \<Rightarrow> RuneError @ coerced cs
      | Some width \<Rightarrow> c # take (width - 1) cs @ coerced (drop (width - 1) cs))"

fun ValidString :: "string \<Rightarrow> bool" where
  "ValidString [] = True"
| "ValidString (c # cs) =
     (case DecodeRuneInString (c # cs) of
        None \<Rightarrow> False
      | Some width \<Rightarrow> ValidString (drop (width - 1) cs))"

section \<open>Files\<close>

text \<open>
  The completion store and the catalog cache keep one JSON file each. A file's content
  is modelled by what it spells out: \<open>JSON_strings xs\<close> is a JSON array of strings that
  spell out the byte sequences \<open>xs\<close>, \<open>JSON_payload p\<close> a JSON object with the fields of
  the cache's \<^verbatim>\<open>payload\<close> struct, \<open>Undecodable\<close> any other content, and \<open>Unreadable\<close>
  stands for something at the path that \<^verbatim>\<open>os.ReadFile\<close> cannot read.
  \<^verbatim>\<open>json.Marshal\<close> writes the strings of a value coerced, and \<^verbatim>\<open>json.Unmarshal\<close>
  returns the strings of a file coerced; neither type can make \<^verbatim>\<open>json.Marshal\<close> fail.
  The disk maps a path to the content of the file there.
\<close>

record Album =
  CID :: string
  Name :: string
  CoverURL :: string
  Artistes :: "string list"

record payload =
  FetchedAt :: string
  Albums :: "Album list"

datatype content =
  Unreadable | Undecodable string | JSON_strings "string list" | JSON_payload payload

type_synonym disk = "string \<rightharpoonup> content"

definition coerced_Album :: "Album \<Rightarrow> Album" where
  "coerced_Album a =
     \<lparr>CID = coerced (CID a), Name = coerced (Name a), CoverURL = coerced (CoverURL a),
      Artistes = map coerced (Artistes a)\<rparr>"

definition coerced_payload :: "payload \<Rightarrow> payload" where
  "coerced_payload pl =
     \<lparr>FetchedAt = coerced (FetchedAt pl), Albums = map coerced_Album (Albums pl)\<rparr>"

definition Marshal_strings :: "string list \<Rightarrow> content" where
  "Marshal_strings xs = JSON_strings (map coerced xs)"

definition Marshal_payload :: "payload \<Rightarrow> content" where
  "Marshal_payload pl = JSON_payload (coerced_payload pl)"

definition Unmarshal_strings :: "content \<Rightarrow> string list option" where
  "Unmarshal_strings b = (case b of JSON_strings xs \<Rightarrow> Some (map coerced xs) | _ \<Rightarrow> None)"

definition Unmarshal_payload :: "content \<Rightarrow> payload option" where
  "Unmarshal_payload b = (case b of JSON_payload pl \<Rightarrow> Some (coerced_payload pl) | _ \<Rightarrow> None)"

text \<open>
  What the environment does to one call that writes a file: the step that fails, if any,
  and the random part of the name that \<^verbatim>\<open>os.CreateTemp\<close> picks.
\<close>

datatype fault = MkdirAll_fault | CreateTemp_fault | Write_fault | Close_fault | Rename_fault

record io =
  fault :: "fault option"
  suffix :: string

datatype fs_error =
  ErrNotExist | ErrRead | ErrParse | ErrParseFetchedAt
  | ErrMkdirAll | ErrCreateTemp | ErrWrite | ErrClose | ErrRename

text \<open>
  \<^verbatim>\<open>Store.MarkCompleted\<close> and \<^verbatim>\<open>Cache.Save\<close> end with the same steps, written out
  twice in the source: \<^verbatim>\<open>os.MkdirAll\<close> of the parent directory, \<^verbatim>\<open>os.CreateTemp\<close> in it
  with the pattern \<^verbatim>\<open>base + ".tmp.*"\<close>, \<^verbatim>\<open>Write\<close>, \<^verbatim>\<open>Close\<close>, and \<^verbatim>\<open>os.Rename\<close>
  over the target; after a failed \<^verbatim>\<open>Write\<close>, \<^verbatim>\<open>Close\<close> or \<^verbatim>\<open>Rename\<close> the temporary
  file is removed. \<^verbatim>\<open>os.CreateTemp\<close> fails when it finds no unused name.
\<close>

definition write_atomically :: "io \<Rightarrow> string \<Rightarrow> content \<Rightarrow> disk \<Rightarrow> fs_error option \<times> disk" where
  "write_atomically env p b d =
     (let tmpPath = p @ ''.tmp.'' @ suffix env in
      if fault env = Some MkdirAll_fault then (Some ErrMkdirAll, d)
      else if fault env = Some CreateTemp_fault \<or> d tmpPath \<noteq> None then (Some ErrCreateTemp, d)
      else
        let d1 = d(tmpPath \<mapsto> Undecodable [])
        in if fault env = Some Write_fault then (Some ErrWrite, d1(tmpPath := None))
           else
             let d2 = d1(tmpPath \<mapsto> b)
             in if fault env = Some Close_fault then (Some ErrClose, d2(tmpPath := None))
                else if fault env = Some Rename_fault then (Some ErrRename, d2(tmpPath := None))
                else (None, (d2(p := d2 tmpPath))(tmpPath := None)))"

section \<open>Completion store (internal/state/store.go)\<close>

text \<open>
  The store's \<^verbatim>\<open>map[string]struct{}\<close> is a finite set of names. Every method holds
  the store's mutex from entry to return, so a call is one step on the store and the
  disk. Ranging over the map and sorting the names with \<^verbatim>\<open>sort.Strings\<close> gives the
  names of the set in ascending order, each once.
\<close>

record Store =
  path :: string
  set_names :: "string fset"

definition NewStore :: "string \<Rightarrow> disk \<Rightarrow> fs_error + Store" where
  "NewStore p d =
     (case d p of
        None \<Rightarrow> Inr \<lparr>path = p, set_names = {||}\<rparr>
      | Some Unreadable \<Rightarrow> Inl ErrRead
      | Some b \<Rightarrow>
          (case Unmarshal_strings b of
             None \<Rightarrow> Inl ErrParse
           | Some albums \<Rightarrow> Inr \<lparr>path = p, set_names = fset_of_list albums\<rparr>))"

definition IsCompleted :: "Store \<Rightarrow> string \<Rightarrow> bool" where
  "IsCompleted s albumName = (albumName |\<in>| set_names s)"

definition MarkCompleted :: "io \<Rightarrow> string \<Rightarrow> Store \<times> disk \<Rightarrow> fs_error option \<times> Store \<times> disk" where
  "MarkCompleted env albumName = (\<lambda>(s, d).
     if albumName |\<in>| set_names s then (None, s, d)
     else
       let s' = s\<lparr>set_names := finsert albumName (set_names s)\<rparr>;
           albums = sorted_list_of_fset (set_names s');
           (err, d') = write_atomically env (path s') (Marshal_strings albums) d
       in (err, s', d'))"

text \<open>A run of calls on one store, each with what the environment does to it.\<close>

fun mark_all :: "(io \<times> string) list \<Rightarrow> Store \<times> disk \<Rightarrow> fs_error option list \<times> Store \<times> disk" where
  "mark_all [] sd = ([], sd)"
| "mark_all ((env, albumName) # calls) sd =
     (case MarkCompleted env albumName sd of
        (err, sd') \<Rightarrow> (case mark_all calls sd' of (errs, sd'') \<Rightarrow> (err # errs, sd'')))"

section \<open>Catalog cache (internal/catalog/cache.go)\<close>

text \<open>
  \<^verbatim>\<open>time.Now().UTC().Format(time.RFC3339)\<close> and \<^verbatim>\<open>time.Parse(time.RFC3339, _)\<close> are
  parameters of the model: \<open>format\<close> renders an instant, \<open>parse\<close> reads one or fails.
  The instant the cache is saved at is the wall clock \<open>t\<close>.
\<close>

definition Load :: "(string \<Rightarrow> int option) \<Rightarrow> string \<Rightarrow> disk \<Rightarrow> fs_error + Album list \<times> int" where
  "Load parse p d =
     (case d p of
        None \<Rightarrow> Inl ErrNotExist
      | Some Unreadable \<Rightarrow> Inl ErrRead
      | Some b \<Rightarrow>
          (case Unmarshal_payload b of
             None \<Rightarrow> Inl ErrParse
           | Some pl \<Rightarrow>
               if FetchedAt pl \<noteq> [] then
                 (case parse (FetchedAt pl) of
                    None \<Rightarrow> Inl ErrParseFetchedAt
                  | Some parsed \<Rightarrow> Inr (Albums pl, parsed))
               else Inr (Albums pl, 0)))"

definition Save :: "(int \<Rightarrow> string) \<Rightarrow> io \<Rightarrow> int \<Rightarrow> string \<Rightarrow> Album list \<Rightarrow> disk \<Rightarrow> fs_error option \<times> disk" where
  "Save format env t p albums d =
     write_atomically env p (Marshal_payload \<lparr>FetchedAt = format t, Albums = albums\<rparr>) d"

subsection \<open>Well-formed state files and test data\<close>



definition Album_valid :: "Album \<Rightarrow> bool" where
  "Album_valid a =
     (ValidString (CID a) \<and> ValidString (Name a) \<and> ValidString (CoverURL a) \<and>
      list_all ValidString (Artistes a))"

text \<open>
  The data of \<^verbatim>\<open>TestStoreMarkCompletedAndReload\<close> and of
  \<^verbatim>\<open>TestCacheSaveLoadRoundTrip\<close>; \<open>io_ok\<close> is a call that the environment lets
  through, \<open>io_rename_fails\<close> one whose \<^verbatim>\<open>os.Rename\<close> fails. \<open>test_format\<close> and
  \<open>test_parse\<close> stand for the RFC 3339 functions at the one instant the example uses
  (2026-02-13T10:00:00Z is 63906573600 seconds after the zero time).
\<close>

definition state_path :: string where
  "state_path = ''completed_albums.json''"

definition io_ok :: "string \<Rightarrow> io" where
  "io_ok sfx = \<lparr>fault = None, suffix = sfx\<rparr>"

definition io_rename_fails :: io where
  "io_rename_fails = \<lparr>fault = Some Rename_fault, suffix = ''1''\<rparr>"


definition test_format :: "int \<Rightarrow> string" where
  "test_format t = ''2026-02-13T10:00:00Z''"

definition test_parse :: "string \<Rightarrow> int option" where
  "test_parse s = (if s = ''2026-02-13T10:00:00Z'' then Some 63906573600000000000 else None)"

definition test_albums :: "Album list" where
  "test_albums =
     [\<lparr>CID = ''a1'', Name = ''Alpha'', CoverURL = ''https://cover/1'', Artistes = [''Artist 1'']\<rparr>,
      \<lparr>CID = ''a2'', Name = ''Beta'', CoverURL = ''https://cover/2'', Artistes = [''Artist 2'']\<rparr>]"

section \<open>Download with progress (internal/download/download.go)\<close>




datatype io_error = EOF | ErrShortWrite | IOError string









subsection \<open>Observing a transfer\<close>









section \<open>Worker pool (internal/worker/pool.go)\<close>

text \<open>
  \<^verbatim>\<open>Run\<close> starts \<^verbatim>\<open>workers\<close> goroutines that receive jobs from the unbuffered channel
  \<^verbatim>\<open>jobCh\<close>, and then offers the jobs in order on that channel. The goroutines
  interleave, so \<^verbatim>\<open>Run\<close> is a transition system: a state and the steps that the
  scheduler may take next.

  A job is a closure over shared state \<open>'s\<close> that is handed the context: it is given
  whether the context is cancelled and the shared state, and returns its error and the
  new shared state. A job runs from the step in which a worker receives it to the step
  in which it returns; its effect on the shared state takes place when it returns.

  The state holds: the index of the job that the enqueue loop offers next; whether
  that loop is still running (\<^verbatim>\<open>jobCh\<close> is closed right after it); what every worker
  does (it waits in \<^verbatim>\<open>range jobCh\<close>, runs the job with a given index, or has left its
  loop and called \<^verbatim>\<open>wg.Done\<close>); the content of \<^verbatim>\<open>errCh\<close>, whose buffer holds one error
  per job, so that a send to it never blocks; whether the context is cancelled; the
  shared state; the value \<^verbatim>\<open>Run\<close> returned, once it has. \<open>finished\<close> is a record for the
  proofs: the indices of the jobs that returned, with their results, in the order in
  which they returned.
\<close>

datatype worker = Waiting | Running nat | Exited

record ('s, 'e) pool =
  next_job :: nat
  feeding :: bool
  workers :: "worker list"
  errCh :: "'e error list"
  cancelled :: bool
  shared :: 's
  finished :: "(nat \<times> 'e option) list"
  returned :: "'e error list option option"

type_synonym ('s, 'e) Job = "bool \<Rightarrow> 's \<Rightarrow> 'e option \<times> 's"

text \<open>
  \<^verbatim>\<open>errors.Join(errs...)\<close> of a non-empty list of non-nil errors is an error that wraps
  the list; it is modelled by the list. \<open>Run_result\<close> is the end of \<^verbatim>\<open>Run\<close>: the errors
  drained from \<^verbatim>\<open>errCh\<close>, then \<^verbatim>\<open>ctx.Err()\<close> if the context is cancelled.
\<close>

definition Run_result :: "('s, 'e) pool \<Rightarrow> 'e error list option" where
  "Run_result st =
     (let errs = errCh st @ (if cancelled st then [Canceled] else [])
      in if length errs > 0 then Some errs else None)"

text \<open>
  The state in which the scheduling starts. With no jobs \<^verbatim>\<open>Run\<close> has returned \<^verbatim>\<open>nil\<close>
  before it made a channel or a goroutine. Otherwise there are \<^verbatim>\<open>workers\<close> goroutines,
  at least one. \<open>pre\<close> says whether the context is cancelled already.
\<close>

definition Run_start :: "bool \<Rightarrow> int \<Rightarrow> ('s, 'e) Job list \<Rightarrow> 's \<Rightarrow> ('s, 'e) pool" where
  "Run_start pre W jobs s =
     (let W = (if W < 1 then 1 else W)
      in if length jobs = 0
         then \<lparr>next_job = 0, feeding = False, workers = [], errCh = [], cancelled = pre,
               shared = s, finished = [], returned = Some None\<rparr>
         else \<lparr>next_job = 0, feeding = True, workers = replicate (nat W) Waiting, errCh = [],
               cancelled = pre, shared = s, finished = [], returned = None\<rparr>)"

text \<open>
  The steps. \<open>send\<close>: the \<^verbatim>\<open>select\<close> of the enqueue loop hands the next job to a
  waiting worker. \<open>stop\<close>: the \<^verbatim>\<open>select\<close> takes \<^verbatim>\<open>ctx.Done()\<close> and leaves the loop.
  \<open>close\<close>: all jobs were handed out. In both cases \<^verbatim>\<open>jobCh\<close> is closed next.
  \<open>finish\<close>: a running job returns, its error (if any) goes to \<^verbatim>\<open>errCh\<close>, and the worker
  waits again. \<open>exit\<close>: a waiting worker finds \<^verbatim>\<open>jobCh\<close> closed. \<open>cancel\<close>: somebody
  cancels the context (only if \<open>cancellable\<close>). \<open>return\<close>: all workers are done
  (\<^verbatim>\<open>wg.Wait()\<close> is over) and \<^verbatim>\<open>Run\<close> returns.
\<close>

inductive step :: "bool \<Rightarrow> ('s, 'e) Job list \<Rightarrow> ('s, 'e) pool \<Rightarrow> ('s, 'e) pool \<Rightarrow> bool"
  for cancellable :: bool and jobs :: "('s, 'e) Job list" where
  send:
    "feeding st \<Longrightarrow> next_job st < length jobs \<Longrightarrow>
     i < length (workers st) \<Longrightarrow> workers st ! i = Waiting \<Longrightarrow>
     step cancellable jobs st
       (st\<lparr>workers := (workers st)[i := Running (next_job st)], next_job := next_job st + 1\<rparr>)"
| stop:
    "feeding st \<Longrightarrow> next_job st < length jobs \<Longrightarrow> cancelled st \<Longrightarrow>
     step cancellable jobs st (st\<lparr>feeding := False\<rparr>)"
| close:
    "feeding st \<Longrightarrow> next_job st = length jobs \<Longrightarrow>
     step cancellable jobs st (st\<lparr>feeding := False\<rparr>)"
| finish:
    "i < length (workers st) \<Longrightarrow> workers st ! i = Running k \<Longrightarrow> k < length jobs \<Longrightarrow>
     (jobs ! k) (cancelled st) (shared st) = (err, s') \<Longrightarrow>
     step cancellable jobs st
       (st\<lparr>workers := (workers st)[i := Waiting], shared := s',
           errCh := errCh st @ (case err of None \<Rightarrow> [] | Some e \<Rightarrow> [OpError e]),
           finished := finished st @ [(k, err)]\<rparr>)"
| exit:
    "\<not> feeding st \<Longrightarrow> i < length (workers st) \<Longrightarrow> workers st ! i = Waiting \<Longrightarrow>
     step cancellable jobs st (st\<lparr>workers := (workers st)[i := Exited]\<rparr>)"
| cancel:
    "cancellable \<Longrightarrow> \<not> cancelled st \<Longrightarrow> returned st = None \<Longrightarrow>
     step cancellable jobs st (st\<lparr>cancelled := True\<rparr>)"
| return:
    "\<not> feeding st \<Longrightarrow> list_all (\<lambda>w. w = Exited) (workers st) \<Longrightarrow> returned st = None \<Longrightarrow>
     step cancellable jobs st (st\<lparr>returned := Some (Run_result st)\<rparr>)"

text \<open>The states that \<^verbatim>\<open>Run\<close> can be in: those that some scheduling reaches.\<close>

definition reachable ::
  "bool \<Rightarrow> bool \<Rightarrow> int \<Rightarrow> ('s, 'e) Job list \<Rightarrow> 's \<Rightarrow> ('s, 'e) pool \<Rightarrow> bool" where
  "reachable cancellable pre W jobs s st =
     (step cancellable jobs)\<^sup>*\<^sup>* (Run_start pre W jobs s) st"

text \<open>The jobs that run in a state, and the errors of the jobs that returned.\<close>

definition running :: "('s, 'e) pool \<Rightarrow> nat list" where
  "running st = concat (map (\<lambda>w. case w of Running k \<Rightarrow> [k] | _ \<Rightarrow> []) (workers st))"

definition failures :: "(nat \<times> 'e option) list \<Rightarrow> 'e error list" where
  "failures fs = concat (map (\<lambda>(k, err). case err of None \<Rightarrow> [] | Some e \<Rightarrow> [OpError e]) fs)"



subsection \<open>Invariants, a measure and test data\<close>

text \<open>
  \<open>running_of\<close> lists the jobs that a list of workers runs. \<open>pool_inv\<close> holds in every
  reachable state: the jobs handed out so far are the ones that returned and the ones
  that run, each once; \<^verbatim>\<open>errCh\<close> holds the errors of the jobs that returned; no worker
  leaves before \<^verbatim>\<open>jobCh\<close> is closed; \<^verbatim>\<open>Run\<close> returns only when the channel is closed and
  all workers have left. \<open>quiet\<close> holds as long as nobody cancels: the enqueue loop
  ends only when all jobs were handed out. \<open>trace_inv\<close> holds as long as nobody
  cancels: the jobs that returned, called one after the other in the order in which
  they returned, give the results recorded and the shared state.
  \<open>pool_measure\<close> goes down with every step.
\<close>

definition running_of :: "worker list \<Rightarrow> nat list" where
  "running_of ws = concat (map (\<lambda>w. case w of Running k \<Rightarrow> [k] | _ \<Rightarrow> []) ws)"

definition pool_inv :: "int \<Rightarrow> ('s, 'e) Job list \<Rightarrow> ('s, 'e) pool \<Rightarrow> bool" where
  "pool_inv W jobs st =
     (next_job st \<le> length jobs \<and>
      length (workers st) = (if jobs = [] then 0 else nat (max 1 W)) \<and>
      mset (map fst (finished st)) + mset (running st) = mset [0..<next_job st] \<and>
      errCh st = failures (finished st) \<and>
      (jobs = [] \<longrightarrow> returned st \<noteq> None) \<and>
      (feeding st \<longrightarrow> Exited \<notin> set (workers st)) \<and>
      (returned st \<noteq> None \<longrightarrow>
         \<not> feeding st \<and> list_all (\<lambda>w. w = Exited) (workers st) \<and>
         returned st = Some (if jobs = [] then None else Run_result st)))"

definition quiet :: "('s, 'e) Job list \<Rightarrow> ('s, 'e) pool \<Rightarrow> bool" where
  "quiet jobs st = (\<not> cancelled st \<and> (\<not> feeding st \<longrightarrow> next_job st = length jobs))"



text \<open>
  The jobs of \<^verbatim>\<open>TestRunCollectsErrors\<close>, which also count themselves as those of
  \<^verbatim>\<open>TestRunProcessesAllJobs\<close> do, and two states of a run with two workers:
  \<open>test_mid\<close> after two jobs were handed out, \<open>test_final\<close> after \<^verbatim>\<open>Run\<close> returned.
\<close>

definition test_jobs :: "(nat, string) Job list" where
  "test_jobs =
     [\<lambda>ctx n. (Some ''job a failed'', Suc n),
      \<lambda>ctx n. (None, Suc n),
      \<lambda>ctx n. (Some ''job b failed'', Suc n)]"

definition pool_state ::
  "nat \<Rightarrow> bool \<Rightarrow> worker list \<Rightarrow> nat \<Rightarrow> (nat \<times> string option) list
    \<Rightarrow> string error list option option \<Rightarrow> (nat, string) pool" where
  "pool_state n f ws s fs r =
     \<lparr>next_job = n, feeding = f, workers = ws, errCh = failures fs, cancelled = False,
      shared = s, finished = fs, returned = r\<rparr>"

definition test_mid :: "(nat, string) pool" where
  "test_mid = pool_state 2 True [Running 0, Running 1] 0 [] None"

section \<open>The retry executor: results\<close>

lemma outcome_Suc: "outcome fn (Suc j) s = outcome fn j (snd (fn s))"
  by (simp add: outcome_def)

lemma sint_of_int_64:
  "- (2 ^ 63) \<le> k \<Longrightarrow> k < 2 ^ 63 \<Longrightarrow> sint (word_of_int k :: 64 word) = k"
  by (simp add: sint_sbintrunc' signed_take_bit_int_eq_self)

lemma backoff_exact:
  assumes "0 \<le> i" "i \<le> 23058430092"
  shows "backoff i = i * 400000000"
proof -
  have "word_of_int i * 400 * Millisecond = (word_of_int (i * 400000000) :: 64 word)"
    by (simp add: Millisecond_def)
  moreover have "sint (word_of_int (i * 400000000) :: 64 word) = i * 400000000"
    by (rule sint_of_int_64) (use assms in auto)
  ultimately show ?thesis by (simp only: backoff_def)
qed

lemma backoff_wraps: "backoff 23058430093 = - 9223372036509551616"
  by (simp add: backoff_def Millisecond_def)

lemma withRetry_loop_succeeds:
  assumes "\<forall>j<k. outcome fn j s \<noteq> None" "outcome fn k s = None" "i + int k \<le> attempts"
  shows "\<exists>t. withRetry_loop None attempts (counted fn) i err \<lparr>clock = t0, heap = (c, s)\<rparr>
           = (None, \<lparr>clock = t, heap = (c + Suc k, state_after fn (Suc k) s)\<rparr>)"
  using assms
proof (induction k arbitrary: i s c t0 err)
  case 0
  then obtain h where "fn s = (None, h)"
    by (cases "fn s") (simp add: outcome_def)
  with 0 show ?case
    by (subst withRetry_loop.simps) (simp add: counted_def)
next
  case (Suc k)
  from Suc.prems(1) have "outcome fn 0 s \<noteq> None" by blast
  then obtain e h where fs: "fn s = (Some e, h)"
    by (cases "fn s") (auto simp add: outcome_def)
  have "\<forall>j<k. outcome fn j h \<noteq> None"
  proof (intro allI impI)
    fix j assume "j < k"
    then have "outcome fn (Suc j) s \<noteq> None" using Suc.prems(1) by auto
    then show "outcome fn j h \<noteq> None" using fs by (simp add: outcome_Suc)
  qed
  moreover have "outcome fn k h = None"
    using Suc.prems(2) fs by (simp add: outcome_Suc)
  moreover have "(i + 1) + int k \<le> attempts" using Suc.prems(3) by simp
  ultimately obtain t where
    "withRetry_loop None attempts (counted fn) (i + 1) (Some e) \<lparr>clock = t0 + max 0 (backoff i), heap = (Suc c, h)\<rparr>
           = (None, \<lparr>clock = t, heap = (Suc c + Suc k, state_after fn (Suc k) h)\<rparr>)"
    using Suc.IH by blast
  moreover have "i < attempts" using Suc.prems(3) by simp
  ultimately show ?case using fs
    by (subst withRetry_loop.simps) (simp add: counted_def select_Done_After_def)
qed


lemma withRetry_loop_exhausts:
  assumes "\<forall>j\<le>n. outcome fn j s \<noteq> None" "i + int n = attempts"
  shows "\<exists>t. withRetry_loop None attempts (counted fn) i err \<lparr>clock = t0, heap = (c, s)\<rparr>
           = (map_option OpError (outcome fn n s),
              \<lparr>clock = t, heap = (c + Suc n, state_after fn (Suc n) s)\<rparr>)"
  using assms
proof (induction n arbitrary: i s c t0 err)
  case 0
  then obtain e h where "fn s = (Some e, h)"
    by (cases "fn s") (auto simp add: outcome_def)
  with 0 show ?case
    by (subst withRetry_loop.simps) (simp add: counted_def outcome_def)
next
  case (Suc n)
  from Suc.prems(1) have "outcome fn 0 s \<noteq> None" by blast
  then obtain e h where fs: "fn s = (Some e, h)"
    by (cases "fn s") (auto simp add: outcome_def)
  have "\<forall>j\<le>n. outcome fn j h \<noteq> None"
  proof (intro allI impI)
    fix j assume "j \<le> n"
    then have "outcome fn (Suc j) s \<noteq> None" using Suc.prems(1) by auto
    then show "outcome fn j h \<noteq> None" using fs by (simp add: outcome_Suc)
  qed
  moreover have "(i + 1) + int n = attempts" using Suc.prems(2) by simp
  ultimately obtain t where
    "withRetry_loop None attempts (counted fn) (i + 1) (Some e) \<lparr>clock = t0 + max 0 (backoff i), heap = (Suc c, h)\<rparr>
           = (map_option OpError (outcome fn n h),
              \<lparr>clock = t, heap = (Suc c + Suc n, state_after fn (Suc n) h)\<rparr>)"
    using Suc.IH by blast
  moreover have "i < attempts" using Suc.prems(2) by simp
  ultimately show ?case using fs
    by (subst withRetry_loop.simps) (simp add: counted_def select_Done_After_def outcome_Suc)
qed

lemma withRetryResult_loop_succeeds:
  assumes "\<forall>j<k. snd (outcome fn j s) \<noteq> None" "outcome fn k s = (v, None)" "i + int k \<le> attempts"
  shows "\<exists>t. withRetryResult_loop zero None attempts (counted fn) i err \<lparr>clock = t0, heap = (c, s)\<rparr>
           = ((v, None), \<lparr>clock = t, heap = (c + Suc k, state_after fn (Suc k) s)\<rparr>)"
  using assms
proof (induction k arbitrary: i s c t0 err)
  case 0
  then obtain h where "fn s = ((v, None), h)"
    by (cases "fn s") (simp add: outcome_def)
  with 0 show ?case
    by (subst withRetryResult_loop.simps) (simp add: counted_def)
next
  case (Suc k)
  from Suc.prems(1) have "snd (outcome fn 0 s) \<noteq> None" by blast
  then obtain u e h where fs: "fn s = ((u, Some e), h)"
    by (cases "fn s") (auto simp add: outcome_def)
  have "\<forall>j<k. snd (outcome fn j h) \<noteq> None"
  proof (intro allI impI)
    fix j assume "j < k"
    then have "snd (outcome fn (Suc j) s) \<noteq> None" using Suc.prems(1) by auto
    then show "snd (outcome fn j h) \<noteq> None" using fs by (simp add: outcome_Suc)
  qed
  moreover have "outcome fn k h = (v, None)"
    using Suc.prems(2) fs by (simp add: outcome_Suc)
  moreover have "(i + 1) + int k \<le> attempts" using Suc.prems(3) by simp
  ultimately obtain t where
    "withRetryResult_loop zero None attempts (counted fn) (i + 1) (Some e) \<lparr>clock = t0 + max 0 (backoff i), heap = (Suc c, h)\<rparr>
           = ((v, None), \<lparr>clock = t, heap = (Suc c + Suc k, state_after fn (Suc k) h)\<rparr>)"
    using Suc.IH by blast
  moreover have "i < attempts" using Suc.prems(3) by simp
  ultimately show ?case using fs
    by (subst withRetryResult_loop.simps) (simp add: counted_def select_Done_After_def)
qed

lemma withRetryResult_loop_exhausts:
  assumes "\<forall>j\<le>n. snd (outcome fn j s) \<noteq> None" "i + int n = attempts"
  shows "\<exists>t. withRetryResult_loop zero None attempts (counted fn) i err \<lparr>clock = t0, heap = (c, s)\<rparr>
           = ((zero, map_option OpError (snd (outcome fn n s))),
              \<lparr>clock = t, heap = (c + Suc n, state_after fn (Suc n) s)\<rparr>)"
  using assms
proof (induction n arbitrary: i s c t0 err)
  case 0
  then obtain u e h where "fn s = ((u, Some e), h)"
    by (cases "fn s") (auto simp add: outcome_def)
  with 0 show ?case
    by (subst withRetryResult_loop.simps) (simp add: counted_def outcome_def)
next
  case (Suc n)
  from Suc.prems(1) have "snd (outcome fn 0 s) \<noteq> None" by blast
  then obtain u e h where fs: "fn s = ((u, Some e), h)"
    by (cases "fn s") (auto simp add: outcome_def)
  have "\<forall>j\<le>n. snd (outcome fn j h) \<noteq> None"
  proof (intro allI impI)
    fix j assume "j \<le> n"
    then have "snd (outcome fn (Suc j) s) \<noteq> None" using Suc.prems(1) by auto
    then show "snd (outcome fn j h) \<noteq> None" using fs by (simp add: outcome_Suc)
  qed
  moreover have "(i + 1) + int n = attempts" using Suc.prems(2) by simp
  ultimately obtain t where
    "withRetryResult_loop zero None attempts (counted fn) (i + 1) (Some e) \<lparr>clock = t0 + max 0 (backoff i), heap = (Suc c, h)\<rparr>
           = ((zero, map_option OpError (snd (outcome fn n h))),
              \<lparr>clock = t, heap = (Suc c + Suc n, state_after fn (Suc n) h)\<rparr>)"
    using Suc.IH by blast
  moreover have "i < attempts" using Suc.prems(2) by simp
  ultimately show ?case using fs
    by (subst withRetryResult_loop.simps) (simp add: counted_def select_Done_After_def outcome_Suc)
qed

text \<open>
  Claim C1, as the code has it. Under a context that is never cancelled, for every
  attempt count \<open>N\<close> (coerced to at least 1) and every operation:
  \<^item> if its first \<open>k < N\<close> invocations fail and the next one succeeds, \<^verbatim>\<open>withRetry\<close>
    returns \<^verbatim>\<open>nil\<close> (and \<^verbatim>\<open>withRetryResult\<close> the value of the successful call) after
    exactly \<open>k + 1\<close> invocations;
  \<^item> if its first \<open>N\<close> invocations all fail, it is invoked exactly \<open>N\<close> times and the
    error of the last invocation is returned (with the zero value, for
    \<^verbatim>\<open>withRetryResult\<close>).
  The operation is observed through \<open>counted\<close>; its behaviour is given by \<open>outcome\<close>.
\<close>

theorem retry_returns_first_success_or_last_failure:
  fixes fn :: "'s \<Rightarrow> 'e option \<times> 's" and fnr :: "'s \<Rightarrow> ('a \<times> 'e option) \<times> 's"
  shows
   "(k < nat (max 1 N) \<and> (\<forall>j<k. outcome fn j s \<noteq> None) \<and> outcome fn k s = None \<longrightarrow>
       fst (withRetry None N (counted fn) \<lparr>clock = t, heap = (0, s)\<rparr>) = None \<and>
       invocations (withRetry None N (counted fn) \<lparr>clock = t, heap = (0, s)\<rparr>) = k + 1) \<and>
    ((\<forall>j<nat (max 1 N). outcome fn j s \<noteq> None) \<longrightarrow>
       fst (withRetry None N (counted fn) \<lparr>clock = t, heap = (0, s)\<rparr>)
         = map_option OpError (outcome fn (nat (max 1 N) - 1) s) \<and>
       invocations (withRetry None N (counted fn) \<lparr>clock = t, heap = (0, s)\<rparr>) = nat (max 1 N)) \<and>
    (k < nat (max 1 N) \<and> (\<forall>j<k. snd (outcome fnr j s) \<noteq> None) \<and> outcome fnr k s = (v, None) \<longrightarrow>
       fst (withRetryResult zero None N (counted fnr) \<lparr>clock = t, heap = (0, s)\<rparr>) = (v, None) \<and>
       invocations (withRetryResult zero None N (counted fnr) \<lparr>clock = t, heap = (0, s)\<rparr>) = k + 1) \<and>
    ((\<forall>j<nat (max 1 N). snd (outcome fnr j s) \<noteq> None) \<longrightarrow>
       fst (withRetryResult zero None N (counted fnr) \<lparr>clock = t, heap = (0, s)\<rparr>)
         = (zero, map_option OpError (snd (outcome fnr (nat (max 1 N) - 1) s))) \<and>
       invocations (withRetryResult zero None N (counted fnr) \<lparr>clock = t, heap = (0, s)\<rparr>) = nat (max 1 N))"
proof -
  let ?A = "if N < 1 then 1 else N"
  have A: "int (nat (max 1 N)) = ?A" by simp
  have 1: "fst (withRetry None N (counted fn) \<lparr>clock = t, heap = (0, s)\<rparr>) = None \<and>
       invocations (withRetry None N (counted fn) \<lparr>clock = t, heap = (0, s)\<rparr>) = k + 1"
    if "k < nat (max 1 N)" "\<forall>j<k. outcome fn j s \<noteq> None" "outcome fn k s = None"
  proof -
    have "1 + int k \<le> ?A" using that(1) by auto
    from withRetry_loop_succeeds [OF that(2,3) this, of None t 0]
    show ?thesis by (auto simp: withRetry_def invocations_def)
  qed
  have 2: "fst (withRetry None N (counted fn) \<lparr>clock = t, heap = (0, s)\<rparr>)
         = map_option OpError (outcome fn (nat (max 1 N) - 1) s) \<and>
       invocations (withRetry None N (counted fn) \<lparr>clock = t, heap = (0, s)\<rparr>) = nat (max 1 N)"
    if "\<forall>j<nat (max 1 N). outcome fn j s \<noteq> None"
  proof -
    have a: "\<forall>j\<le>nat (max 1 N) - 1. outcome fn j s \<noteq> None" using that by auto
    have b: "1 + int (nat (max 1 N) - 1) = ?A" by auto
    from withRetry_loop_exhausts [OF a b, of None t 0]
    show ?thesis by (auto simp: withRetry_def invocations_def)
  qed
  have 3: "fst (withRetryResult zero None N (counted fnr) \<lparr>clock = t, heap = (0, s)\<rparr>) = (v, None) \<and>
       invocations (withRetryResult zero None N (counted fnr) \<lparr>clock = t, heap = (0, s)\<rparr>) = k + 1"
    if "k < nat (max 1 N)" "\<forall>j<k. snd (outcome fnr j s) \<noteq> None" "outcome fnr k s = (v, None)"
  proof -
    have "1 + int k \<le> ?A" using that(1) by auto
    from withRetryResult_loop_succeeds [OF that(2,3) this, of zero None t 0]
    show ?thesis by (auto simp: withRetryResult_def invocations_def)
  qed
  have 4: "fst (withRetryResult zero None N (counted fnr) \<lparr>clock = t, heap = (0, s)\<rparr>)
         = (zero, map_option OpError (snd (outcome fnr (nat (max 1 N) - 1) s))) \<and>
       invocations (withRetryResult zero None N (counted fnr) \<lparr>clock = t, heap = (0, s)\<rparr>) = nat (max 1 N)"
    if "\<forall>j<nat (max 1 N). snd (outcome fnr j s) \<noteq> None"
  proof -
    have a: "\<forall>j\<le>nat (max 1 N) - 1. snd (outcome fnr j s) \<noteq> None" using that by auto
    have b: "1 + int (nat (max 1 N) - 1) = ?A" by auto
    from withRetryResult_loop_exhausts [OF a b, of zero None t 0]
    show ?thesis by (auto simp: withRetryResult_def invocations_def)
  qed
  from 1 2 3 4 show ?thesis by blast
qed


lemma state_after_flaky: "state_after (flaky g) j c = c + j"
  by (induction j arbitrary: c) (simp_all add: flaky_def)

lemma outcome_flaky:
  "outcome (flaky g) j c = (if Suc (c + j) < g then Some ''transient'' else None)"
  by (simp add: outcome_def state_after_flaky) (simp add: flaky_def)

lemma state_after_flaky_value: "state_after (flaky_value g) j c = c + j"
  by (induction j arbitrary: c) (simp_all add: flaky_value_def)

lemma outcome_flaky_value:
  "outcome (flaky_value g) j c =
     (if Suc (c + j) < g then (0, Some ''transient'') else (42, None))"
  by (simp add: outcome_def state_after_flaky_value) (simp add: flaky_value_def)

text \<open>
  The closures of \<^verbatim>\<open>TestWithRetryEventuallySucceeds\<close>, \<^verbatim>\<open>TestWithRetryReturnsLastError\<close>
  and \<^verbatim>\<open>TestWithRetryResultEventuallySucceeds\<close> satisfy the hypotheses of the theorem of
  claim C1, which gives the results the tests expect; the last line is an attempt count
  of 0, coerced to 1.
\<close>

theorem retry_witness:
  "fst (withRetry None 3 (counted (flaky 3)) \<lparr>clock = 0, heap = (0, 0)\<rparr>) = None \<and>
   invocations (withRetry None 3 (counted (flaky 3)) \<lparr>clock = 0, heap = (0, 0)\<rparr>) = 3 \<and>
   fst (withRetry None 2 (counted (flaky 9)) \<lparr>clock = 0, heap = (0, 0)\<rparr>)
     = Some (OpError ''transient'') \<and>
   invocations (withRetry None 2 (counted (flaky 9)) \<lparr>clock = 0, heap = (0, 0)\<rparr>) = 2 \<and>
   fst (withRetryResult 0 None 3 (counted (flaky_value 2)) \<lparr>clock = 0, heap = (0, 0)\<rparr>)
     = (42, None) \<and>
   invocations (withRetryResult 0 None 3 (counted (flaky_value 2)) \<lparr>clock = 0, heap = (0, 0)\<rparr>) = 2 \<and>
   fst (withRetryResult 0 None 0 (counted (flaky_value 9)) \<lparr>clock = 0, heap = (0, 0)\<rparr>)
     = (0, Some (OpError ''transient'')) \<and>
   invocations (withRetryResult 0 None 0 (counted (flaky_value 9)) \<lparr>clock = 0, heap = (0, 0)\<rparr>) = 1"
proof -
  have a: "(2::nat) < nat (max 1 3) \<and> (\<forall>j<2. outcome (flaky 3) j 0 \<noteq> None)
      \<and> outcome (flaky 3) 2 0 = None"
    by (simp add: outcome_flaky)
  have b: "\<forall>j<nat (max 1 2). outcome (flaky 9) j 0 \<noteq> None"
    by (simp add: outcome_flaky)
  have c: "(1::nat) < nat (max 1 3) \<and> (\<forall>j<1. snd (outcome (flaky_value 2) j 0) \<noteq> None)
      \<and> outcome (flaky_value 2) 1 0 = (42, None)"
    by (simp add: outcome_flaky_value)
  have d: "\<forall>j<nat (max 1 0). snd (outcome (flaky_value 9) j 0) \<noteq> None"
    by (simp add: outcome_flaky_value)
  note T = retry_returns_first_success_or_last_failure
  from a T [where k = 2 and N = 3 and fn = "flaky 3" and s = 0 and t = 0
      and fnr = "flaky_value 2" and v = 42 and zero = 0]
  have 1: "fst (withRetry None 3 (counted (flaky 3)) \<lparr>clock = 0, heap = (0, 0)\<rparr>) = None \<and>
   invocations (withRetry None 3 (counted (flaky 3)) \<lparr>clock = 0, heap = (0, 0)\<rparr>) = 3"
    by simp
  from b T [where k = 0 and N = 2 and fn = "flaky 9" and s = 0 and t = 0
      and fnr = "flaky_value 2" and v = 42 and zero = 0]
  have 2: "fst (withRetry None 2 (counted (flaky 9)) \<lparr>clock = 0, heap = (0, 0)\<rparr>)
     = Some (OpError ''transient'') \<and>
   invocations (withRetry None 2 (counted (flaky 9)) \<lparr>clock = 0, heap = (0, 0)\<rparr>) = 2"
    by (simp add: outcome_flaky)
  from c T [where k = 1 and N = 3 and fnr = "flaky_value 2" and s = 0 and t = 0
      and v = 42 and zero = 0 and fn = "flaky 3"]
  have 3: "fst (withRetryResult 0 None 3 (counted (flaky_value 2)) \<lparr>clock = 0, heap = (0, 0)\<rparr>)
     = (42, None) \<and>
   invocations (withRetryResult 0 None 3 (counted (flaky_value 2)) \<lparr>clock = 0, heap = (0, 0)\<rparr>) = 2"
    by simp
  from d T [where k = 0 and N = 0 and fnr = "flaky_value 9" and s = 0 and t = 0
      and v = 42 and zero = 0 and fn = "flaky 3"]
  have 4: "fst (withRetryResult 0 None 0 (counted (flaky_value 9)) \<lparr>clock = 0, heap = (0, 0)\<rparr>)
     = (0, Some (OpError ''transient'')) \<and>
   invocations (withRetryResult 0 None 0 (counted (flaky_value 9)) \<lparr>clock = 0, heap = (0, 0)\<rparr>) = 1"
    by (simp add: outcome_flaky_value)
  from 1 2 3 4 show ?thesis by blast
qed

lemma backoff_1: "backoff 1 = 400000000"
  by (simp add: backoff_def Millisecond_def)

text \<open>
  Claim C1 as written puts no condition on cancellation in its first half. With a
  context cancelled from the start, an operation that fails once and would then succeed
  is invoked once only, and \<^verbatim>\<open>withRetry\<close> with \<open>N = 2\<close> returns the cancellation error,
  not success after two invocations.
\<close>

theorem retry_cancelled_before_success_counterexample:
  "outcome (flaky 2) 0 0 \<noteq> None \<and> outcome (flaky 2) 1 0 = None \<and>
   fst (withRetry (Some 0) 2 (counted (flaky 2)) \<lparr>clock = 0, heap = (0, 0)\<rparr>) = Some Canceled \<and>
   invocations (withRetry (Some 0) 2 (counted (flaky 2)) \<lparr>clock = 0, heap = (0, 0)\<rparr>) = 1"
  by (simp add: outcome_flaky withRetry_def withRetry_loop.simps counted_def flaky_def
      select_Done_After_def ctx_Err_def ctx_Done_def invocations_def)


text \<open>
  Claim C2, as the code has it. Let attempt \<open>i\<close> fail with \<open>1 \<le> i < N\<close> and
  \<open>i \<le> 23058430092\<close> (so that \<open>i \<times> 400ms\<close> fits the 64-bit nanosecond count of a
  \<^verbatim>\<open>time.Duration\<close>). If the context is never cancelled, or only after
  \<open>i \<times> 400ms\<close> have passed, the next attempt starts exactly \<open>i \<times> 400ms\<close> after the
  failure. If it is cancelled before that (also when it was cancelled already), the
  executor stops at the instant of the cancellation, or at once, and returns the
  cancellation error; the operation's own error \<open>e\<close> is dropped and no further attempt
  is made.
\<close>

theorem retry_backoff_step:
  assumes "1 \<le> i" "i < attempts" "i \<le> 23058430092" "fn (heap w) = (Some e, h)"
  shows "(ctx = None \<or> (\<exists>c. ctx = Some c \<and> clock w + i * 400000000 < c) \<longrightarrow>
            withRetry_loop ctx attempts fn i err w =
              withRetry_loop ctx attempts fn (i + 1) (Some e)
                (w\<lparr>heap := h, clock := clock w + i * 400000000\<rparr>)) \<and>
         (\<forall>c. ctx = Some c \<and> c < clock w + i * 400000000 \<longrightarrow>
            withRetry_loop ctx attempts fn i err w =
              (Some Canceled, w\<lparr>heap := h, clock := max (clock w) c\<rparr>))"
proof -
  have b: "backoff i = i * 400000000" using assms by (intro backoff_exact) auto
  have p: "0 < i * 400000000" using assms(1) by simp
  show ?thesis
    using assms(1,2,4) p
    by (subst (1 3) withRetry_loop.simps)
       (auto simp: b select_Done_After_def ctx_Err_def ctx_Done_def max_def split: option.splits)
qed

text \<open>
  The second of three attempts fails at 0.4s: the third starts 0.8s later, at 1.2s;
  with a cancellation at 0.5s the executor returns the cancellation error at 0.5s.
\<close>

theorem retry_backoff_step_witness:
  "withRetry_loop None 3 permanent 2 (Some ''permanent'') \<lparr>clock = 400000000, heap = ()\<rparr>
     = (Some (OpError ''permanent''), \<lparr>clock = 1200000000, heap = ()\<rparr>) \<and>
   withRetry_loop (Some 500000000) 3 permanent 2 (Some ''permanent'') \<lparr>clock = 400000000, heap = ()\<rparr>
     = (Some Canceled, \<lparr>clock = 500000000, heap = ()\<rparr>)"
proof -
  have f: "permanent (heap \<lparr>clock = 400000000, heap = ()\<rparr>) = (Some ''permanent'', ())"
    by (simp add: permanent_def)
  have l: "withRetry_loop ctx 3 permanent 3 err \<lparr>clock = t, heap = ()\<rparr>
      = (Some (OpError ''permanent''), \<lparr>clock = t, heap = ()\<rparr>)" for ctx err t
    by (subst withRetry_loop.simps) (simp add: permanent_def)
  have "withRetry_loop None 3 permanent 2 (Some ''permanent'') \<lparr>clock = 400000000, heap = ()\<rparr>
     = (Some (OpError ''permanent''), \<lparr>clock = 1200000000, heap = ()\<rparr>)"
    using retry_backoff_step [where i = 2 and attempts = 3 and fn = permanent and ctx = None
        and w = "\<lparr>clock = 400000000, heap = ()\<rparr>" and e = "''permanent''" and h = "()"
        and err = "Some ''permanent''", OF _ _ _ f]
    by (simp add: l)
  moreover have "withRetry_loop (Some 500000000) 3 permanent 2 (Some ''permanent'')
       \<lparr>clock = 400000000, heap = ()\<rparr>
     = (Some Canceled, \<lparr>clock = 500000000, heap = ()\<rparr>)"
    using retry_backoff_step [where i = 2 and attempts = 3 and fn = permanent
        and ctx = "Some 500000000"
        and w = "\<lparr>clock = 400000000, heap = ()\<rparr>" and e = "''permanent''" and h = "()"
        and err = "Some ''permanent''", OF _ _ _ f]
    by simp
  ultimately show ?thesis by blast
qed

text \<open>
  Claim C2 is stated for every \<open>N\<close>. At attempt \<open>i = 23058430093\<close> of
  \<open>N = 23058430094\<close> the product \<^verbatim>\<open>time.Duration(i) * 400 * time.Millisecond\<close> exceeds
  \<open>2\<^sup>6\<^sup>3 - 1\<close> nanoseconds and wraps to a negative duration, so the timer fires at once:
  the last attempt runs at the instant of the failure (the clock still reads 0), not
  \<open>i \<times> 400ms\<close> later.
\<close>

theorem retry_backoff_overflow_counterexample:
  "backoff 23058430093 < 0 \<and>
   withRetry_loop None 23058430094 permanent 23058430093 (Some ''permanent'')
       \<lparr>clock = 0, heap = ()\<rparr>
     = withRetry_loop None 23058430094 permanent 23058430094 (Some ''permanent'')
       \<lparr>clock = 0, heap = ()\<rparr>"
  by (subst withRetry_loop.simps)
     (simp add: permanent_def select_Done_After_def backoff_wraps)

text \<open>
  Claim C3, as the code has it. The context is looked at only between attempts, after a
  failure. With a context cancelled before the first attempt, the operation is invoked
  exactly once, whatever \<open>N\<close> and the operation are, and no time passes. The result is
  the cancellation error only if that invocation fails and \<open>N \<ge> 2\<close>; if it succeeds
  the result is success (with the value, for \<^verbatim>\<open>withRetryResult\<close>), and if it fails with
  \<open>N \<le> 1\<close> the result is the operation's own error.
\<close>

theorem retry_precancelled:
  assumes "c \<le> t"
  shows "withRetry (Some c) N (counted fn) \<lparr>clock = t, heap = (0, s)\<rparr> =
           ((case fst (fn s) of
               None \<Rightarrow> None
             | Some e \<Rightarrow> if N \<le> 1 then Some (OpError e) else Some Canceled),
            \<lparr>clock = t, heap = (1, snd (fn s))\<rparr>) \<and>
         withRetryResult zero (Some c) N (counted fnr) \<lparr>clock = t, heap = (0, s)\<rparr> =
           ((case snd (fst (fnr s)) of
               None \<Rightarrow> (fst (fst (fnr s)), None)
             | Some e \<Rightarrow> (zero, if N \<le> 1 then Some (OpError e) else Some Canceled)),
            \<lparr>clock = t, heap = (1, snd (fnr s))\<rparr>)"
proof -
  obtain r h where f: "fn s = (r, h)" by (cases "fn s")
  obtain v r' h' where g: "fnr s = ((v, r'), h')" by (cases "fnr s") auto
  have 1: "withRetry (Some c) N (counted fn) \<lparr>clock = t, heap = (0, s)\<rparr> =
           ((case fst (fn s) of
               None \<Rightarrow> None
             | Some e \<Rightarrow> if N \<le> 1 then Some (OpError e) else Some Canceled),
            \<lparr>clock = t, heap = (1, snd (fn s))\<rparr>)"
    using assms f unfolding withRetry_def
    by (subst withRetry_loop.simps)
       (auto simp: counted_def select_Done_After_def ctx_Err_def ctx_Done_def max_def
             split: option.splits)
  have 2: "withRetryResult zero (Some c) N (counted fnr) \<lparr>clock = t, heap = (0, s)\<rparr> =
           ((case snd (fst (fnr s)) of
               None \<Rightarrow> (fst (fst (fnr s)), None)
             | Some e \<Rightarrow> (zero, if N \<le> 1 then Some (OpError e) else Some Canceled)),
            \<lparr>clock = t, heap = (1, snd (fnr s))\<rparr>)"
    using assms g unfolding withRetryResult_def
    by (subst withRetryResult_loop.simps)
       (auto simp: counted_def select_Done_After_def ctx_Err_def ctx_Done_def max_def
             split: option.splits)
  from 1 2 show ?thesis by blast
qed

text \<open>
  \<^verbatim>\<open>TestWithRetryRespectsContextCancellation\<close>: three attempts, an operation that always
  fails, a context cancelled beforehand. With one attempt the operation's error comes
  back instead.
\<close>

theorem retry_precancelled_witness:
  "withRetry (Some 5) 3 (counted permanent) \<lparr>clock = 7, heap = (0, ())\<rparr> =
     (Some Canceled, \<lparr>clock = 7, heap = (1, ())\<rparr>) \<and>
   withRetry (Some 5) 1 (counted permanent) \<lparr>clock = 7, heap = (0, ())\<rparr> =
     (Some (OpError ''permanent''), \<lparr>clock = 7, heap = (1, ())\<rparr>)"
proof -
  have le: "(5::int) \<le> 7" by simp
  from retry_precancelled [OF le, where N = 3 and fn = permanent and s = "()"
      and fnr = "\<lambda>u. ((0::int, None :: string option), u)" and zero = 0]
       retry_precancelled [OF le, where N = 1 and fn = permanent and s = "()"
      and fnr = "\<lambda>u. ((0::int, None :: string option), u)" and zero = 0]
  show ?thesis by (simp add: permanent_def)
qed

text \<open>
  Claim C3 as written includes operations that succeed on their first invocation. Such
  an operation is invoked once under a context cancelled beforehand, and \<^verbatim>\<open>withRetry\<close>
  returns \<^verbatim>\<open>nil\<close>, not the cancellation error.
\<close>

theorem retry_precancelled_success_counterexample:
  "withRetry (Some 0) 3 (counted succeed) \<lparr>clock = 0, heap = (0, ())\<rparr>
     = (None, \<lparr>clock = 0, heap = (1, ())\<rparr>)"
  by (simp add: withRetry_def withRetry_loop.simps counted_def succeed_def)


section \<open>Freshness of the cached catalog: results\<close>

lemma time_Sub_exact:
  "minDuration \<le> t - u \<Longrightarrow> t - u \<le> maxDuration \<Longrightarrow> time_Sub t u = t - u"
  by (simp add: time_Sub_def)

text \<open>
  Claim C4, as the code has it. \<^verbatim>\<open>shouldUseCachedAlbums\<close> returns true whenever
  \<open>ttl \<le> 0\<close>; otherwise false when \<open>cachedAt\<close> is the zero time; otherwise true if
  and only if the elapsed time \<open>now - cachedAt\<close>, cut off at the largest
  \<^verbatim>\<open>time.Duration\<close> (\<open>2\<^sup>6\<^sup>3 - 1\<close> nanoseconds, about 292 years), is at most \<open>ttl\<close>. A
  negative elapsed time is below every positive \<open>ttl\<close>, so it yields true.
\<close>

theorem shouldUseCachedAlbums_iff:
  "shouldUseCachedAlbums cachedAt ttl now =
     (ttl \<le> 0 \<or> (\<not> IsZero cachedAt \<and> min (now - cachedAt) maxDuration \<le> ttl))"
  by (auto simp: shouldUseCachedAlbums_def time_Sub_def Let_def minDuration_def maxDuration_def)

text \<open>
  Claim C4 as written compares the elapsed time itself with \<open>ttl\<close>. A cache stamped
  in year 1001, read in year 2026 with \<open>ttl\<close> the largest \<^verbatim>\<open>time.Duration\<close>, is more
  than \<open>ttl\<close> old, yet it is used: \<^verbatim>\<open>now.Sub(cachedAt)\<close> is cut off at \<open>ttl\<close>.
\<close>

theorem shouldUseCachedAlbums_saturation_counterexample:
  "shouldUseCachedAlbums 31556952000000000000 9223372036854775807 63900000000000000000 \<and>
   (0::int) < 9223372036854775807 \<and>
   \<not> IsZero 31556952000000000000 \<and>
   \<not> (63900000000000000000 - 31556952000000000000 \<le> (9223372036854775807::int))"
  by (simp add: shouldUseCachedAlbums_def time_Sub_def IsZero_def minDuration_def
      maxDuration_def)

section \<open>Completion store and catalog cache: results\<close>

lemma coerced_valid: "ValidString s \<Longrightarrow> coerced s = s"
  by (induction s rule: ValidString.induct) (auto split: option.splits)

lemma map_coerced_valid: "list_all ValidString xs \<Longrightarrow> map coerced xs = xs"
  by (induction xs) (simp_all add: coerced_valid)

lemma DecodeRune_ascii: "byte c < 0x80 \<Longrightarrow> DecodeRuneInString (c # cs) = Some 1"
  by (simp add: DecodeRuneInString_def first_def)

lemma DecodeRune_prefix:
  assumes "DecodeRuneInString (c # cs) = Some n"
  shows "1 \<le> n \<and> n - 1 \<le> length cs \<and> DecodeRuneInString (c # take (n - 1) cs @ r) = Some n"
proof -
  obtain lo hi where a: "acceptRanges (byte c) = (lo, hi)" by (cases "acceptRanges (byte c)")
  have "first (byte c) \<le> 4" by (simp add: first_def)
  then consider "first (byte c) = 0" | "first (byte c) = 1" | "first (byte c) = 2"
    | "first (byte c) = 3" | "first (byte c) = 4" by linarith
  then show ?thesis
  proof cases
    case 1 with assms a show ?thesis by (simp add: DecodeRuneInString_def)
  next
    case 2 with assms a show ?thesis by (simp add: DecodeRuneInString_def)
  next
    case 3
    with assms a have "cs \<noteq> []"
      by (auto simp: DecodeRuneInString_def)
    then obtain b1 t where "cs = b1 # t" by (cases cs) auto
    with assms a 3 show ?thesis
      by (simp add: DecodeRuneInString_def split: if_splits)
  next
    case 4
    with assms a have "2 \<le> length cs"
      by (simp add: DecodeRuneInString_def split: if_splits)
    then obtain b1 b2 t where "cs = b1 # b2 # t"
      by (cases cs; cases "tl cs") auto
    with assms a 4 show ?thesis
      by (simp add: DecodeRuneInString_def split: if_splits)
  next
    case 5
    with assms a have "3 \<le> length cs"
      by (simp add: DecodeRuneInString_def split: if_splits)
    then obtain b1 b2 b3 t where "cs = b1 # b2 # b3 # t"
      by (cases cs; cases "tl cs"; cases "tl (tl cs)") auto
    with assms a 5 show ?thesis
      by (simp add: DecodeRuneInString_def split: if_splits)
  qed
qed

lemma ValidString_coerced: "ValidString (coerced s)"
proof (induction s rule: coerced.induct)
  case 1
  show ?case by simp
next
  case (2 c cs)
  show ?case
  proof (cases "DecodeRuneInString (c # cs)")
    case None
    with 2(1) have "ValidString (coerced cs)" by simp
    then have "ValidString (RuneError @ coerced cs)"
      by (simp add: RuneError_def byte_def DecodeRuneInString_def first_def acceptRanges_def)
    with None show ?thesis by simp
  next
    case (Some n)
    note d = DecodeRune_prefix [OF Some, of "coerced (drop (n - 1) cs)"]
    from 2(2) [OF Some] have "ValidString (coerced (drop (n - 1) cs))" .
    with d have "ValidString (c # take (n - 1) cs @ coerced (drop (n - 1) cs))"
      by simp
    with Some show ?thesis by simp
  qed
qed

lemma coerced_idem: "coerced (coerced s) = coerced s"
  by (rule coerced_valid) (rule ValidString_coerced)

lemma coerced_Album_idem: "coerced_Album (coerced_Album a) = coerced_Album a"
  by (simp add: coerced_Album_def coerced_idem)

lemma coerced_Album_valid: "Album_valid a \<Longrightarrow> coerced_Album a = a"
  by (simp add: coerced_Album_def Album_valid_def coerced_valid map_coerced_valid)

lemma map_coerced_Album_valid: "list_all Album_valid albums \<Longrightarrow> map coerced_Album albums = albums"
  by (induction albums) (simp_all add: coerced_Album_valid)

lemma coerced_Nil_iff: "coerced s = [] \<longleftrightarrow> s = []"
  by (cases s) (simp_all add: RuneError_def split: option.splits)



lemma tmp_neq: "p @ ''.tmp.'' @ sfx \<noteq> p"
  by simp

lemma write_atomically_error:
  "fst (write_atomically env p b d) \<noteq> None \<Longrightarrow> snd (write_atomically env p b d) = d"
  by (auto simp: write_atomically_def Let_def fun_upd_idem split: if_splits)

lemma write_atomically_ok:
  "fst (write_atomically env p b d) = None \<Longrightarrow> snd (write_atomically env p b d) = d(p \<mapsto> b)"
  by (auto simp: write_atomically_def Let_def fun_eq_iff split: if_splits)

lemma write_atomically_cases:
  "write_atomically env p b d = (None, d(p \<mapsto> b)) \<or>
   (\<exists>e. write_atomically env p b d = (Some e, d))"
  using write_atomically_error [of env p b d] write_atomically_ok [of env p b d]
  by (cases "write_atomically env p b d") (cases "fst (write_atomically env p b d)"; auto)




lemma MarkCompleted_present:
  "albumName |\<in>| set_names s \<Longrightarrow> MarkCompleted env albumName (s, d) = (None, s, d)"
  by (simp add: MarkCompleted_def)

lemma MarkCompleted_new:
  assumes "albumName |\<notin>| set_names s"
  shows "MarkCompleted env albumName (s, d) =
     (fst (write_atomically env (path s)
            (Marshal_strings (sorted_list_of_fset (finsert albumName (set_names s)))) d),
      s\<lparr>set_names := finsert albumName (set_names s)\<rparr>,
      snd (write_atomically env (path s)
            (Marshal_strings (sorted_list_of_fset (finsert albumName (set_names s)))) d))"
  using assms by (simp add: MarkCompleted_def Let_def split: prod.splits)












text \<open>
  Claim C10. If \<^verbatim>\<open>MarkCompleted\<close> returns an error, the name was not in the set
  before, it is in the set afterwards, and the disk is as it was before the call. Every
  later \<^verbatim>\<open>MarkCompleted\<close> of that name returns \<^verbatim>\<open>nil\<close> without touching the disk,
  whatever the environment would allow: persistence is not tried again.
\<close>

theorem MarkCompleted_error_keeps_name:
  assumes "MarkCompleted env albumName (s, d) = (Some e, s', d')"
  shows "\<not> IsCompleted s albumName \<and> IsCompleted s' albumName \<and> d' = d \<and>
         mark_all (map (\<lambda>env'. (env', albumName)) envs) (s', d')
           = (replicate (length envs) None, s', d')"
proof -
  have new: "albumName |\<notin>| set_names s"
    using assms by (auto simp: MarkCompleted_present)
  let ?b = "Marshal_strings (sorted_list_of_fset (finsert albumName (set_names s)))"
  from assms new have w: "fst (write_atomically env (path s) ?b d) = Some e"
    and s': "s' = s\<lparr>set_names := finsert albumName (set_names s)\<rparr>"
    and d': "d' = snd (write_atomically env (path s) ?b d)"
    by (simp_all add: MarkCompleted_new)
  from w have "fst (write_atomically env (path s) ?b d) \<noteq> None" by simp
  from write_atomically_error [OF this] d' have d: "d' = d" by simp
  have inm: "albumName |\<in>| set_names s'" using s' by simp
  have "mark_all (map (\<lambda>env'. (env', albumName)) envs) (s', d')
           = (replicate (length envs) None, s', d')"
    by (induction envs) (simp_all add: MarkCompleted_present [OF inm])
  with new inm d show ?thesis by (simp add: IsCompleted_def)
qed


lemma sorted_list_of_fset_finsert:
  "x |\<notin>| S \<Longrightarrow> sorted_list_of_fset (finsert x S) = insort x (sorted_list_of_fset S)"
  by (simp add: sorted_list_of_fset.rep_eq sorted_list_of_set_insert)

lemma sorted_list_of_fset_empty: "sorted_list_of_fset {||} = []"
  by (simp add: sorted_list_of_fset.rep_eq)

lemma alpha_beta: "insort ''beta'' [''alpha''] = [''alpha'', ''beta'']"
  by simp









text \<open>
  On a new path, a \<^verbatim>\<open>MarkCompleted\<close> whose rename fails leaves no file; alpha is
  completed in memory, two more calls return \<^verbatim>\<open>nil\<close> and write nothing, and a new
  store on the path does not know alpha.
\<close>

theorem MarkCompleted_error_witness:
  "MarkCompleted io_rename_fails ''alpha'' (\<lparr>path = state_path, set_names = {||}\<rparr>, Map.empty)
     = (Some ErrRename, \<lparr>path = state_path, set_names = {|''alpha''|}\<rparr>, Map.empty) \<and>
   IsCompleted \<lparr>path = state_path, set_names = {|''alpha''|}\<rparr> ''alpha'' \<and>
   mark_all [(io_ok ''2'', ''alpha''), (io_ok ''3'', ''alpha'')]
       (\<lparr>path = state_path, set_names = {|''alpha''|}\<rparr>, Map.empty)
     = ([None, None], \<lparr>path = state_path, set_names = {|''alpha''|}\<rparr>, Map.empty) \<and>
   NewStore state_path Map.empty = Inr \<lparr>path = state_path, set_names = {||}\<rparr> \<and>
   \<not> IsCompleted \<lparr>path = state_path, set_names = {||}\<rparr> ''alpha''"
proof -
  let ?init = "\<lparr>path = state_path, set_names = {||}\<rparr>"
  let ?marked = "\<lparr>path = state_path, set_names = {|''alpha''|}\<rparr>"
  have m: "MarkCompleted io_rename_fails ''alpha'' (?init, Map.empty)
     = (Some ErrRename, ?marked, Map.empty)"
    by (simp add: MarkCompleted_def write_atomically_def io_rename_fails_def state_path_def
        sorted_list_of_fset_finsert sorted_list_of_fset_empty fun_eq_iff)
  from MarkCompleted_error_keeps_name [OF m, of "[io_ok ''2'', io_ok ''3'']"] m
  show ?thesis
    by (simp add: NewStore_def)
qed

text \<open>
  Claim C5, for albums whose strings are valid UTF-8. Let \<^verbatim>\<open>time.Format\<close> write valid
  UTF-8 (RFC 3339 is ASCII) that \<^verbatim>\<open>time.Parse\<close> reads back, which for RFC 3339 is the
  instant cut to whole seconds, and let the clock be at least a second past the zero
  time. If \<^verbatim>\<open>Save\<close> returns \<^verbatim>\<open>nil\<close> at instant \<open>t\<close>, then \<^verbatim>\<open>Load\<close> on the same path
  returns the albums with their strings coerced, which are the same albums when their
  strings are valid UTF-8, and the instant \<open>t\<close> cut to whole seconds: not the zero
  time, not after \<open>t\<close>, and less than a second before it.
\<close>

theorem cache_round_trip:
  assumes "parse (format t) = Some (t - t mod 1000000000)" "format t \<noteq> []"
    and "ValidString (format t)" "1000000000 \<le> t"
    and "Save format env t p albums d = (None, d')"
  shows "Load parse p d' = Inr (map coerced_Album albums, t - t mod 1000000000) \<and>
         (list_all Album_valid albums \<longrightarrow>
            Load parse p d' = Inr (albums, t - t mod 1000000000)) \<and>
         \<not> IsZero (t - t mod 1000000000) \<and>
         t - t mod 1000000000 \<le> t \<and> t - (t - t mod 1000000000) < 1000000000"
proof -
  let ?b = "Marshal_payload \<lparr>FetchedAt = format t, Albums = albums\<rparr>"
  from assms(5) have "fst (write_atomically env p ?b d) = None"
    and "d' = snd (write_atomically env p ?b d)"
    by (simp_all add: Save_def)
  with write_atomically_ok [of env p ?b d] have "d' = d(p \<mapsto> ?b)" by simp
  then have l: "Load parse p d' = Inr (map coerced_Album albums, t - t mod 1000000000)"
    using assms(1,2)
    by (simp add: Load_def Unmarshal_payload_def Marshal_payload_def coerced_payload_def
        coerced_valid [OF assms(3)] coerced_Album_idem)
  then have v: "list_all Album_valid albums \<longrightarrow>
      Load parse p d' = Inr (albums, t - t mod 1000000000)"
    by (simp add: map_coerced_Album_valid)
  have "t - t mod 1000000000 \<noteq> 0"
  proof
    assume "t - t mod 1000000000 = 0"
    then have "t = t mod 1000000000" by simp
    moreover have "t mod 1000000000 < 1000000000" by simp
    ultimately show False using assms(4) by linarith
  qed
  moreover have "0 \<le> t mod 1000000000" "t mod 1000000000 < 1000000000" by simp_all
  ultimately show ?thesis using l v by (simp add: IsZero_def)
qed

lemma valid_test_format: "ValidString (test_format t)"
  by (simp add: test_format_def DecodeRune_ascii byte_def)

lemma valid_test_albums: "list_all Album_valid test_albums"
  by (simp add: test_albums_def Album_valid_def DecodeRune_ascii byte_def)

text \<open>
  \<^verbatim>\<open>TestCacheSaveLoadRoundTrip\<close>, saved a quarter of a second after
  2026-02-13T10:00:00Z.
\<close>

theorem cache_round_trip_witness:
  "Save test_format (io_ok ''1'') 63906573600250000000 ''albums_cache.json'' test_albums Map.empty
     = (None, [''albums_cache.json'' \<mapsto>
          JSON_payload \<lparr>FetchedAt = ''2026-02-13T10:00:00Z'', Albums = test_albums\<rparr>]) \<and>
   Load test_parse ''albums_cache.json''
     [''albums_cache.json'' \<mapsto>
          JSON_payload \<lparr>FetchedAt = ''2026-02-13T10:00:00Z'', Albums = test_albums\<rparr>]
     = Inr (test_albums, 63906573600000000000)"
proof -
  have m: "Marshal_payload \<lparr>FetchedAt = test_format 63906573600250000000, Albums = test_albums\<rparr>
      = JSON_payload \<lparr>FetchedAt = ''2026-02-13T10:00:00Z'', Albums = test_albums\<rparr>"
    using coerced_valid [OF valid_test_format [of 63906573600250000000]]
      map_coerced_Album_valid [OF valid_test_albums]
    by (simp add: Marshal_payload_def coerced_payload_def test_format_def)
  have s: "Save test_format (io_ok ''1'') 63906573600250000000 ''albums_cache.json'' test_albums Map.empty
     = (None, [''albums_cache.json'' \<mapsto>
          JSON_payload \<lparr>FetchedAt = ''2026-02-13T10:00:00Z'', Albums = test_albums\<rparr>])"
    by (simp add: Save_def m write_atomically_def io_ok_def fun_eq_iff)
  have a: "test_parse (test_format 63906573600250000000)
      = Some (63906573600250000000 - 63906573600250000000 mod 1000000000)"
    by (simp add: test_parse_def test_format_def)
  have b: "test_format 63906573600250000000 \<noteq> []" by (simp add: test_format_def)
  have c: "(1000000000::int) \<le> 63906573600250000000" by simp
  from cache_round_trip [where parse = test_parse and format = test_format
      and t = 63906573600250000000, OF a b valid_test_format c s]
  have "list_all Album_valid test_albums \<longrightarrow>
      Load test_parse ''albums_cache.json''
        [''albums_cache.json'' \<mapsto>
          JSON_payload \<lparr>FetchedAt = ''2026-02-13T10:00:00Z'', Albums = test_albums\<rparr>]
      = Inr (test_albums, 63906573600250000000 - 63906573600250000000 mod 1000000000)"
    by (elim conjE)
  with valid_test_albums have "Load test_parse ''albums_cache.json''
        [''albums_cache.json'' \<mapsto>
          JSON_payload \<lparr>FetchedAt = ''2026-02-13T10:00:00Z'', Albums = test_albums\<rparr>]
      = Inr (test_albums, 63906573600250000000 - 63906573600250000000 mod 1000000000)"
    by (rule rev_mp)
  then have "Load test_parse ''albums_cache.json''
        [''albums_cache.json'' \<mapsto>
          JSON_payload \<lparr>FetchedAt = ''2026-02-13T10:00:00Z'', Albums = test_albums\<rparr>]
      = Inr (test_albums, 63906573600000000000)"
    by simp
  with s show ?thesis by (intro conjI)
qed

text \<open>
  Claim C5 is stated for every list of albums. An album whose name ends in the byte
  FF, which is not valid UTF-8, is saved with U+FFFD in its place, so \<^verbatim>\<open>Load\<close> returns
  another name than the one that was saved.
\<close>

theorem cache_round_trip_counterexample:
  "Save test_format (io_ok ''1'') 63906573600250000000 ''albums_cache.json''
       [\<lparr>CID = ''a1'', Name = ''bad'' @ [CHR 0xFF], CoverURL = [], Artistes = []\<rparr>] Map.empty
     = (None, [''albums_cache.json'' \<mapsto>
          JSON_payload \<lparr>FetchedAt = ''2026-02-13T10:00:00Z'',
            Albums = [\<lparr>CID = ''a1'', Name = ''bad'' @ [CHR 0xEF, CHR 0xBF, CHR 0xBD],
                       CoverURL = [], Artistes = []\<rparr>]\<rparr>]) \<and>
   Load test_parse ''albums_cache.json''
     [''albums_cache.json'' \<mapsto>
          JSON_payload \<lparr>FetchedAt = ''2026-02-13T10:00:00Z'',
            Albums = [\<lparr>CID = ''a1'', Name = ''bad'' @ [CHR 0xEF, CHR 0xBF, CHR 0xBD],
                       CoverURL = [], Artistes = []\<rparr>]\<rparr>]
     = Inr ([\<lparr>CID = ''a1'', Name = ''bad'' @ [CHR 0xEF, CHR 0xBF, CHR 0xBD],
              CoverURL = [], Artistes = []\<rparr>], 63906573600000000000) \<and>
   ''bad'' @ [CHR 0xEF, CHR 0xBF, CHR 0xBD] \<noteq> ''bad'' @ [CHR 0xFF]"
proof -
  have f: "coerced ''2026-02-13T10:00:00Z'' = ''2026-02-13T10:00:00Z''"
    using coerced_valid [OF valid_test_format [of 0]] by (simp add: test_format_def)
  have a: "coerced ''a1'' = ''a1''"
    by (rule coerced_valid) (simp add: DecodeRune_ascii byte_def)
  have b: "coerced (''bad'' @ [CHR 0xFF]) = ''bad'' @ [CHR 0xEF, CHR 0xBF, CHR 0xBD]"
    by (simp add: DecodeRuneInString_def byte_def first_def RuneError_def)
  have c: "coerced (''bad'' @ [CHR 0xEF, CHR 0xBF, CHR 0xBD]) = ''bad'' @ [CHR 0xEF, CHR 0xBF, CHR 0xBD]"
    by (rule coerced_valid)
      (simp add: DecodeRuneInString_def byte_def first_def acceptRanges_def)
  from f a b have 1: "Save test_format (io_ok ''1'') 63906573600250000000 ''albums_cache.json''
       [\<lparr>CID = ''a1'', Name = ''bad'' @ [CHR 0xFF], CoverURL = [], Artistes = []\<rparr>] Map.empty
     = (None, [''albums_cache.json'' \<mapsto>
          JSON_payload \<lparr>FetchedAt = ''2026-02-13T10:00:00Z'',
            Albums = [\<lparr>CID = ''a1'', Name = ''bad'' @ [CHR 0xEF, CHR 0xBF, CHR 0xBD],
                       CoverURL = [], Artistes = []\<rparr>]\<rparr>])"
    by (simp add: Save_def Marshal_payload_def coerced_payload_def coerced_Album_def
        write_atomically_def io_ok_def test_format_def fun_eq_iff)
  from f a c have 2: "Load test_parse ''albums_cache.json''
     [''albums_cache.json'' \<mapsto>
          JSON_payload \<lparr>FetchedAt = ''2026-02-13T10:00:00Z'',
            Albums = [\<lparr>CID = ''a1'', Name = ''bad'' @ [CHR 0xEF, CHR 0xBF, CHR 0xBD],
                       CoverURL = [], Artistes = []\<rparr>]\<rparr>]
     = Inr ([\<lparr>CID = ''a1'', Name = ''bad'' @ [CHR 0xEF, CHR 0xBF, CHR 0xBD],
              CoverURL = [], Artistes = []\<rparr>], 63906573600000000000)"
    by (simp add: Load_def Unmarshal_payload_def coerced_payload_def coerced_Album_def
        test_parse_def)
  have 3: "''bad'' @ [CHR 0xEF, CHR 0xBF, CHR 0xBD] \<noteq> ''bad'' @ [CHR 0xFF]" by simp
  from 1 2 3 show ?thesis by (intro conjI)
qed

section \<open>Download with progress: results\<close>














section \<open>Worker pool: results\<close>

lemma running_running_of: "running st = running_of (workers st)"
  by (simp add: running_def running_of_def)

lemma running_of_Cons:
  "running_of (w # ws) = (case w of Running k \<Rightarrow> [k] | _ \<Rightarrow> []) @ running_of ws"
  by (simp add: running_of_def)

lemma running_of_Nil: "running_of [] = []"
  by (simp add: running_of_def)

lemma running_of_start:
  "i < length ws \<Longrightarrow> ws ! i = Waiting \<Longrightarrow>
   mset (running_of (ws[i := Running k])) = add_mset k (mset (running_of ws))"
proof (induction ws arbitrary: i)
  case Nil
  then show ?case by simp
next
  case (Cons w ws)
  then show ?case
    by (cases i) (auto simp: running_of_Cons split: worker.splits)
qed

lemma running_of_finish:
  "i < length ws \<Longrightarrow> ws ! i = Running k \<Longrightarrow>
   mset (running_of ws) = add_mset k (mset (running_of (ws[i := Waiting])))"
proof (induction ws arbitrary: i)
  case Nil
  then show ?case by simp
next
  case (Cons w ws)
  then show ?case
    by (cases i) (auto simp: running_of_Cons split: worker.splits)
qed

lemma running_of_exit:
  "i < length ws \<Longrightarrow> ws ! i = Waiting \<Longrightarrow> running_of (ws[i := Exited]) = running_of ws"
proof (induction ws arbitrary: i)
  case Nil
  then show ?case by simp
next
  case (Cons w ws)
  then show ?case
    by (cases i) (auto simp: running_of_Cons split: worker.splits)
qed

lemma running_of_length: "length (running_of ws) \<le> length ws"
  by (induction ws) (auto simp: running_of_Cons running_of_Nil split: worker.splits)


lemma failures_append: "failures (fs @ gs) = failures fs @ failures gs"
  by (simp add: failures_def)

lemma failures_single:
  "failures [(k, err)] = (case err of None \<Rightarrow> [] | Some e \<Rightarrow> [OpError e])"
  by (simp add: failures_def)


lemma pool_inv_start: "pool_inv W jobs (Run_start pre W jobs s)"
  by (simp add: pool_inv_def Run_start_def Run_result_def running_def failures_def Let_def
      max_def)

lemma pool_invD:
  assumes "pool_inv W jobs st"
  shows "next_job st \<le> length jobs"
    and "length (workers st) = (if jobs = [] then 0 else nat (max 1 W))"
    and "mset (map fst (finished st)) + mset (running_of (workers st)) = mset [0..<next_job st]"
    and "errCh st = failures (finished st)"
    and "jobs = [] \<Longrightarrow> returned st \<noteq> None"
    and "feeding st \<Longrightarrow> Exited \<notin> set (workers st)"
    and "returned st \<noteq> None \<Longrightarrow> \<not> feeding st"
    and "returned st \<noteq> None \<Longrightarrow> list_all (\<lambda>w. w = Exited) (workers st)"
    and "returned st \<noteq> None \<Longrightarrow> returned st = Some (if jobs = [] then None else Run_result st)"
  using assms unfolding pool_inv_def running_running_of by blast+

lemma pool_invI:
  assumes "next_job st \<le> length jobs"
    and "length (workers st) = (if jobs = [] then 0 else nat (max 1 W))"
    and "mset (map fst (finished st)) + mset (running_of (workers st)) = mset [0..<next_job st]"
    and "errCh st = failures (finished st)"
    and "jobs = [] \<Longrightarrow> returned st \<noteq> None"
    and "feeding st \<Longrightarrow> Exited \<notin> set (workers st)"
    and "returned st \<noteq> None \<Longrightarrow> \<not> feeding st"
    and "returned st \<noteq> None \<Longrightarrow> list_all (\<lambda>w. w = Exited) (workers st)"
    and "returned st \<noteq> None \<Longrightarrow> returned st = Some (if jobs = [] then None else Run_result st)"
  shows "pool_inv W jobs st"
  unfolding pool_inv_def running_running_of using assms by blast

lemma not_Exited_update:
  "Exited \<notin> set ws \<Longrightarrow> w \<noteq> Exited \<Longrightarrow> Exited \<notin> set (ws[i := w])"
  by (metis insert_iff set_update_subset_insert subsetD)

lemma busy_not_all_exited:
  "i < length ws \<Longrightarrow> ws ! i \<noteq> Exited \<Longrightarrow> \<not> list_all (\<lambda>w. w = Exited) ws"
  by (auto simp: list_all_length)

lemma pool_inv_step:
  assumes "step c jobs st st'" "pool_inv W jobs st"
  shows "pool_inv W jobs st'"
  using assms
proof (induction rule: step.induct)
  case (send st i)
  note inv = pool_invD [OF send.prems]
  have nr: "returned st = None"
    using inv(7) send.hyps(1) by blast
  show ?case
  proof (rule pool_invI)
    show "mset (map fst (finished (st\<lparr>workers := (workers st)[i := Running (next_job st)], next_job := next_job st + 1\<rparr>))) +
        mset (running_of (workers (st\<lparr>workers := (workers st)[i := Running (next_job st)], next_job := next_job st + 1\<rparr>))) =
        mset [0..<next_job (st\<lparr>workers := (workers st)[i := Running (next_job st)], next_job := next_job st + 1\<rparr>)]"
      using inv(3) running_of_start [OF send.hyps(3,4)] by simp
  next
    show "feeding (st\<lparr>workers := (workers st)[i := Running (next_job st)], next_job := next_job st + 1\<rparr>)
      \<Longrightarrow> Exited \<notin> set (workers (st\<lparr>workers := (workers st)[i := Running (next_job st)], next_job := next_job st + 1\<rparr>))"
      using inv(6) send.hyps(1) by (simp add: not_Exited_update)
  qed (use send.hyps(2) inv(1,2,4) nr in simp_all)
next
  case (stop st)
  note inv = pool_invD [OF stop.prems]
  have nr: "returned st = None"
    using inv(7) stop.hyps(1) by blast
  show ?case
    by (rule pool_invI) (use stop.hyps(2) inv(1,2,4) inv(3) nr in simp_all)
next
  case (close st)
  note inv = pool_invD [OF close.prems]
  have nr: "returned st = None"
    using inv(7) close.hyps(1) by blast
  have ne: "jobs \<noteq> []" using inv(5) nr by blast
  show ?case
    by (rule pool_invI) (use ne inv(1,2,4) inv(3) nr in simp_all)
next
  case (finish i st k err s')
  note inv = pool_invD [OF finish.prems]
  have r: "mset (running_of (workers st))
      = add_mset k (mset (running_of ((workers st)[i := Waiting])))"
    using finish.hyps(1,2) by (rule running_of_finish)
  have "\<not> list_all (\<lambda>w. w = Exited) (workers st)"
    using finish.hyps(1,2) by (intro busy_not_all_exited [of i]) simp_all
  then have nr: "returned st = None"
    using inv(8) by blast
  have ne: "jobs \<noteq> []" using inv(5) nr by blast
  show ?case
  proof (rule pool_invI)
    show "mset (map fst (finished (st\<lparr>workers := (workers st)[i := Waiting], shared := s',
           errCh := errCh st @ (case err of None \<Rightarrow> [] | Some e \<Rightarrow> [OpError e]),
           finished := finished st @ [(k, err)]\<rparr>))) +
        mset (running_of (workers (st\<lparr>workers := (workers st)[i := Waiting], shared := s',
           errCh := errCh st @ (case err of None \<Rightarrow> [] | Some e \<Rightarrow> [OpError e]),
           finished := finished st @ [(k, err)]\<rparr>))) =
        mset [0..<next_job (st\<lparr>workers := (workers st)[i := Waiting], shared := s',
           errCh := errCh st @ (case err of None \<Rightarrow> [] | Some e \<Rightarrow> [OpError e]),
           finished := finished st @ [(k, err)]\<rparr>)]"
      using inv(3) r by simp
  next
    show "feeding (st\<lparr>workers := (workers st)[i := Waiting], shared := s',
           errCh := errCh st @ (case err of None \<Rightarrow> [] | Some e \<Rightarrow> [OpError e]),
           finished := finished st @ [(k, err)]\<rparr>)
      \<Longrightarrow> Exited \<notin> set (workers (st\<lparr>workers := (workers st)[i := Waiting], shared := s',
           errCh := errCh st @ (case err of None \<Rightarrow> [] | Some e \<Rightarrow> [OpError e]),
           finished := finished st @ [(k, err)]\<rparr>))"
      using inv(6) by (simp add: not_Exited_update)
  qed (use ne inv(1,2,4) nr in \<open>simp_all add: failures_append failures_single\<close>)
next
  case (exit st i)
  note inv = pool_invD [OF exit.prems]
  have "\<not> list_all (\<lambda>w. w = Exited) (workers st)"
    using exit.hyps(2,3) by (intro busy_not_all_exited [of i]) simp_all
  then have nr: "returned st = None"
    using inv(8) by blast
  have ne: "jobs \<noteq> []" using inv(5) nr by blast
  show ?case
    by (rule pool_invI)
       (use exit.hyps ne inv(1,2,4) inv(3) nr in \<open>simp_all add: running_of_exit\<close>)
next
  case (cancel st)
  note inv = pool_invD [OF cancel.prems]
  have ne: "jobs \<noteq> []" using inv(5) cancel.hyps(3) by blast
  show ?case
  proof (rule pool_invI)
    show "feeding (st\<lparr>cancelled := True\<rparr>) \<Longrightarrow> Exited \<notin> set (workers (st\<lparr>cancelled := True\<rparr>))"
      using inv(6) by simp
  qed (use cancel.hyps(3) ne inv(1,2,4) inv(3) in simp_all)
next
  case (return st)
  note inv = pool_invD [OF return.prems]
  have ne: "jobs \<noteq> []" using inv(5) return.hyps(3) by blast
  show ?case
    by (rule pool_invI)
       (use return.hyps(1,2) ne inv(1,2,4) inv(3) in \<open>simp_all add: Run_result_def\<close>)
qed

lemma pool_inv_reachable:
  assumes "reachable c pre W jobs s st"
  shows "pool_inv W jobs st"
  using assms unfolding reachable_def
  by (induction rule: rtranclp_induct) (auto intro: pool_inv_start pool_inv_step)







lemma quiet_start: "quiet jobs (Run_start False W jobs s)"
  by (simp add: quiet_def Run_start_def Let_def)

lemma quiet_step:
  assumes "step False jobs st st'" "quiet jobs st"
  shows "quiet jobs st'"
  using assms by (induction rule: step.induct) (simp_all add: quiet_def)

lemma quiet_reachable:
  assumes "reachable False False W jobs s st"
  shows "quiet jobs st"
  using assms unfolding reachable_def
  by (induction rule: rtranclp_induct) (auto intro: quiet_start quiet_step)








text \<open>
  Claim C8. In every state that \<^verbatim>\<open>Run\<close> can reach, cancelled or not, the jobs that run
  are run by different workers of a fixed set of \<open>W\<close> (1 if \<open>W < 1\<close>; none for an empty
  job list), so no more than \<open>W\<close> jobs run at the same time.
\<close>

theorem Run_bounded_concurrency:
  assumes "reachable c pre W jobs s st"
  shows "length (running st) \<le> length (workers st) \<and>
         length (workers st) = (if jobs = [] then 0 else nat (max 1 W)) \<and>
         length (running st) \<le> nat (max 1 W)"
proof -
  note inv = pool_inv_reachable [OF assms]
  have "length (running st) \<le> length (workers st)"
    by (simp add: running_running_of running_of_length)
  moreover have "length (workers st) = (if jobs = [] then 0 else nat (max 1 W))"
    using pool_invD(2) [OF inv] .
  ultimately show ?thesis by (auto split: if_splits)
qed


lemma test_start: "Run_start False 2 test_jobs 0 = pool_state 0 True [Waiting, Waiting] 0 [] None"
  by (simp add: Run_start_def pool_state_def test_jobs_def failures_def numeral_2_eq_2)

lemma sendI:
  "feeding st \<Longrightarrow> next_job st < length jobs \<Longrightarrow> i < length (workers st) \<Longrightarrow>
   workers st ! i = Waiting \<Longrightarrow>
   st' = st\<lparr>workers := (workers st)[i := Running (next_job st)], next_job := next_job st + 1\<rparr>
   \<Longrightarrow> step c jobs st st'"
  by (erule ssubst) (rule step.send)





lemma test_reach_mid: "reachable False False 2 test_jobs 0 test_mid"
proof -
  have 1: "step False test_jobs (pool_state 0 True [Waiting, Waiting] 0 [] None)
      (pool_state 1 True [Running 0, Waiting] 0 [] None)"
    by (rule sendI [where i = 0]) (simp_all add: pool_state_def test_jobs_def)
  have 2: "step False test_jobs (pool_state 1 True [Running 0, Waiting] 0 [] None)
      (pool_state 2 True [Running 0, Running 1] 0 [] None)"
    by (rule sendI [where i = 1]) (simp_all add: pool_state_def test_jobs_def)
  have "(step False test_jobs)\<^sup>*\<^sup>* (pool_state 0 True [Waiting, Waiting] 0 [] None)
      (pool_state 0 True [Waiting, Waiting] 0 [] None)" by (rule rtranclp.rtrancl_refl)
  from this 1 have "(step False test_jobs)\<^sup>*\<^sup>* (pool_state 0 True [Waiting, Waiting] 0 [] None)
      (pool_state 1 True [Running 0, Waiting] 0 [] None)" by (rule rtranclp.rtrancl_into_rtrancl)
  from this 2 have "(step False test_jobs)\<^sup>*\<^sup>* (pool_state 0 True [Waiting, Waiting] 0 [] None)
      (pool_state 2 True [Running 0, Running 1] 0 [] None)" by (rule rtranclp.rtrancl_into_rtrancl)
  then show ?thesis
    unfolding reachable_def test_start test_mid_def .
qed





text \<open>
  Two workers and three jobs: after two jobs were handed out, two jobs run.
\<close>

theorem Run_bounded_concurrency_witness:
  "reachable False False 2 test_jobs 0 test_mid \<and> running test_mid = [0, 1] \<and>
   length (running test_mid) \<le> nat (max 1 2)"
proof -
  have a: "running test_mid = [0, 1]"
    by (simp add: running_def test_mid_def pool_state_def)
  from Run_bounded_concurrency [OF test_reach_mid]
  have b: "length (running test_mid) \<le> nat (max 1 2)" by (elim conjE)
  from test_reach_mid a b show ?thesis by (intro conjI)
qed


end
